theory Spec2Isabelle
  imports Main "HOL-Library.Multiset" "HOL-Library.Sublist"
begin

section \<open>Data model of \<open>masonry.js\<close>\<close>

text \<open>
  The values that flow through the layout code. Widths, thresholds and column counts are
  JavaScript numbers; the model keeps the integers and the two non-numbers the code can
  produce: \<open>undefined\<close> (a property that is absent) and \<open>NaN\<close> (\<open>parseInt\<close> of something
  that is no numeral, a remainder by zero).
\<close>

datatype jsvalue = Undefined | NaN | Num int

text \<open>
  A breakpoint table is a plain object. Its own property names are \<open>"default"\<close> and the
  thresholds, each written as the decimal numeral of an integer: \<open>Threshold t\<close> is the
  property whose name is the numeral of \<open>t\<close>. The object is the list of its properties in
  \<open>Object.keys\<close> order. An array is the object whose keys are its indices.
\<close>

datatype key = Default | Threshold int

type_synonym object = "(key \<times> jsvalue) list"

text \<open>
  What \<open>JSON.parse\<close> can return: \<open>null\<close>, an object (or array), or a number, string
  or boolean. Of the last three the code reads only \<open>parseInt(parsed, 10)\<close>, and that
  value is what the model keeps of them.
\<close>

datatype json = JNull | JObject object | JPrimitive jsvalue

text \<open>
  The field \<open>breakpointCols\<close> is assigned either the parsed value, when its \<open>typeof\<close> is
  \<open>"object"\<close> (an object or \<open>null\<close>), or an object literal; so it is \<open>null\<close> or an object.
\<close>

datatype breakpoints = Null | Object object

datatype error = SyntaxError | TypeError

text \<open>
  The options that the layout reads, each as the truth value that the code's conditions
  see.
\<close>

record masonryOptions =
  sortByHeight :: bool
  horizontalOrder :: bool
  debug :: bool

text \<open>
  The fields of a \<open>MasonryLayout\<close>, with the column elements of the container (each the
  sequence of its children) as part of the state, and the lines that \<open>console.error\<close>
  has written: the diagnostic channel. The \<open>console.log\<close> lines of the debug mode are
  left out.
\<close>

record 'a masonryLayout =
  originalItems :: "'a list"
  defaultCols :: int
  breakpointCols :: breakpoints
  columnCount :: jsvalue
  masonryOptions :: masonryOptions
  columns :: "'a list list"
  console :: "string list"

section \<open>Resolving the column count\<close>

text \<open>Property access \<open>obj[k]\<close>: \<open>undefined\<close> when the object has no such property.\<close>

definition get :: "object \<Rightarrow> key \<Rightarrow> jsvalue" where
  "get obj k = (case map_of obj k of None \<Rightarrow> Undefined | Some v \<Rightarrow> v)"

text \<open>
  The breakpoints that the code compares and looks up are numbers: double-precision
  values. Those that arise from an integer numeral are integers or infinite.
\<close>

datatype number = NegInfinity | Finite int | Infinity

instantiation number :: linorder
begin

definition less_eq_number :: "number \<Rightarrow> number \<Rightarrow> bool" where
  "less_eq_number a b \<longleftrightarrow>
     (case a of
        NegInfinity \<Rightarrow> True
      | Finite x \<Rightarrow> (case b of NegInfinity \<Rightarrow> False | Finite y \<Rightarrow> x \<le> y | Infinity \<Rightarrow> True)
      | Infinity \<Rightarrow> (case b of Infinity \<Rightarrow> True | _ \<Rightarrow> False))"

definition less_number :: "number \<Rightarrow> number \<Rightarrow> bool" where
  "less_number a b \<longleftrightarrow> a \<le> b \<and> \<not> b \<le> a"

instance
proof
  fix x y z :: number
  show "(x < y) = (x \<le> y \<and> \<not> y \<le> x)" by (rule less_number_def)
  show "x \<le> x" by (cases x) (simp_all add: less_eq_number_def)
  show "x \<le> y \<Longrightarrow> y \<le> z \<Longrightarrow> x \<le> z"
    by (cases x; cases y; cases z) (simp_all add: less_eq_number_def)
  show "x \<le> y \<Longrightarrow> y \<le> x \<Longrightarrow> x = y"
    by (cases x; cases y) (simp_all add: less_eq_number_def)
  show "x \<le> y \<or> y \<le> x"
    by (cases x; cases y) (auto simp: less_eq_number_def)
qed

end

text \<open>
  The double nearest to an integer that is not negative. One below \<open>2^53\<close> is a
  double. A larger one is cut to its 53 leading binary digits, \<open>shiftOf\<close> digits being
  dropped, and rounded to the nearer neighbour, to the even one in a tie; \<open>None\<close> when
  the result is beyond the largest double.
\<close>

function shiftOf :: "int \<Rightarrow> nat" where
  "shiftOf m = (if m < 2 ^ 53 then 0 else Suc (shiftOf (m div 2)))"
  by pat_completeness auto
termination
  by (relation "measure nat") auto

declare shiftOf.simps [simp del]

definition nearestDouble :: "int \<Rightarrow> int option" where
  "nearestDouble m =
     (let s = shiftOf m; q = m div 2 ^ s; r = m mod 2 ^ s;
          q' = (if 2 ^ s < 2 * r \<or> (2 * r = 2 ^ s \<and> odd q) then q + 1 else q)
      in if q' * 2 ^ s < 2 ^ 1024 then Some (q' * 2 ^ s) else None)"

text \<open>\<open>Number(key)\<close> for the key that is the numeral of \<open>t\<close>.\<close>

definition toNumber :: "int \<Rightarrow> number" where
  "toNumber t =
     (case nearestDouble \<bar>t\<bar> of
        None \<Rightarrow> if t < 0 then NegInfinity else Infinity
      | Some v \<Rightarrow> Finite (if t < 0 then - v else v))"

text \<open>
  The property name of a number, which \<open>obj[breakpoint]\<close> looks up. Of an integer below
  \<open>10^21\<close> in magnitude it is a decimal numeral: the one with the fewest significant
  digits, filled up with zeros, that \<open>Number\<close> reads as this number; of two such the
  nearer one, and the one with the even last digit in a tie. \<open>shortestDecimal x p\<close> tries
  the multiples of the power of ten \<open>p\<close> next to \<open>x\<close>, then those of the lower powers;
  \<open>topPower x\<close> is the largest power of ten that is not above \<open>x\<close>. Of a larger number
  the name is in exponent notation, and of an infinite one it is \<open>"Infinity"\<close> or
  \<open>"-Infinity"\<close>: no key of an \<open>object\<close> has such a name (\<open>None\<close>).
\<close>

function topPower :: "int \<Rightarrow> int" where
  "topPower x = (if x < 10 then 1 else 10 * topPower (x div 10))"
  by pat_completeness auto
termination
  by (relation "measure nat") auto

declare topPower.simps [simp del]

function shortestDecimal :: "int \<Rightarrow> int \<Rightarrow> int" where
  "shortestDecimal x p =
     (if p \<le> 1 then x
      else let lo = (x div p) * p; hi = lo + p;
               okLo = (nearestDouble lo = Some x); okHi = (nearestDouble hi = Some x)
           in if okLo \<and> okHi
              then if x - lo < hi - x \<or> (x - lo = hi - x \<and> even (x div p)) then lo else hi
              else if okLo then lo
              else if okHi then hi
              else shortestDecimal x (p div 10))"
  by pat_completeness auto
termination
  by (relation "measure (\<lambda>(x, p). nat p)") auto

declare shortestDecimal.simps [simp del]

fun toPropertyKey :: "number \<Rightarrow> key option" where
  "toPropertyKey (Finite n) =
     (if \<bar>n\<bar> < 10 ^ 21
      then Some (Threshold (sgn n * shortestDecimal \<bar>n\<bar> (topPower \<bar>n\<bar>)))
      else None)"
| "toPropertyKey Infinity = None"
| "toPropertyKey NegInfinity = None"

text \<open>\<open>obj[breakpoint]\<close> for a number.\<close>

definition getNumber :: "object \<Rightarrow> number \<Rightarrow> jsvalue" where
  "getNumber obj breakpoint =
     (case toPropertyKey breakpoint of None \<Rightarrow> Undefined | Some k \<Rightarrow> get obj k)"

text \<open>
  \<open>Object.keys(obj).filter((key) => key !== "default")\<close>: the threshold keys, each given
  by the integer whose numeral it is.
\<close>

fun thresholds :: "object \<Rightarrow> int list" where
  "thresholds [] = []"
| "thresholds ((Default, v) # obj) = thresholds obj"
| "thresholds ((Threshold t, v) # obj) = t # thresholds obj"

text \<open>
  The \<open>for\<close> loop of \<open>calculateColumnCount\<close> over the sorted breakpoints, with its
  \<open>break\<close> at the first breakpoint the width does not exceed.
\<close>

fun matchBreakpoint :: "int \<Rightarrow> object \<Rightarrow> jsvalue \<Rightarrow> number list \<Rightarrow> jsvalue" where
  "matchBreakpoint windowWidth obj matchedBreakpoint [] = matchedBreakpoint"
| "matchBreakpoint windowWidth obj matchedBreakpoint (breakpoint # rest) =
     (if Finite windowWidth \<le> breakpoint then getNumber obj breakpoint
      else matchBreakpoint windowWidth obj matchedBreakpoint rest)"

text \<open>
  \<open>calculateColumnCount\<close> at a given \<open>window.innerWidth\<close>: the keys are mapped with
  \<open>Number\<close> and sorted in ascending order. \<open>typeof null\<close> is \<open>"object"\<close> too, and
  \<open>Object.keys(null)\<close> throws a \<open>TypeError\<close>. The last line of the source, for a
  \<open>breakpointCols\<close> that is no object, cannot be reached from a value of type
  \<open>breakpoints\<close>.
\<close>

definition calculateColumnCount :: "int \<Rightarrow> breakpoints \<Rightarrow> error + jsvalue" where
  "calculateColumnCount windowWidth bp =
     (case bp of
        Null \<Rightarrow> Inl TypeError
      | Object obj \<Rightarrow>
          Inr (matchBreakpoint windowWidth obj (get obj Default)
                 (sort (map toNumber (thresholds obj)))))"

section \<open>Distributing the items\<close>

text \<open>
  \<open>Array.from({ length: columnCount })\<close> reads the length with \<open>ToLength\<close>: a value that
  is no positive number gives the empty array.
\<close>

fun toLength :: "jsvalue \<Rightarrow> nat" where
  "toLength (Num n) = nat n"
| "toLength NaN = 0"
| "toLength Undefined = 0"

text \<open>
  The first part of \<open>createLayout\<close>: the existing column elements are kept and emptied
  when their number \<open>=== this.columnCount\<close>, otherwise the container is emptied and new
  columns are made.
\<close>

definition layoutColumns :: "jsvalue \<Rightarrow> 'a list list \<Rightarrow> 'a list list" where
  "layoutColumns colCount existingColumns =
     (if Num (int (length existingColumns)) = colCount
      then map (\<lambda>column. []) existingColumns
      else replicate (toLength colCount) [])"

text \<open>
  \<open>column.appendChild(item)\<close> on the column at index \<open>j\<close>: a node has one parent, so the
  item leaves the column that holds it, and becomes the last child of column \<open>j\<close>.
\<close>

definition appendChild :: "'a list list \<Rightarrow> nat \<Rightarrow> 'a \<Rightarrow> 'a list list" where
  "appendChild cols j item =
     (let detached = map (removeAll item) cols
      in detached[j := detached ! j @ [item]])"

text \<open>
  \<open>columns.reduce((shortest, current) => m(current) < m(shortest) ? current : shortest,
  columns[0])\<close> for a measure \<open>m\<close> of the columns, which are named by their indices.
  On the empty array the result is the initial value \<open>columns[0]\<close>, which is \<open>undefined\<close>:
  \<open>None\<close>.
\<close>

definition reduceColumns :: "(nat \<Rightarrow> int) \<Rightarrow> nat \<Rightarrow> nat option" where
  "reduceColumns m n =
     (if n = 0 then None
      else Some (foldl (\<lambda>shortest current. if m current < m shortest then current else shortest)
                   0 [0..<n]))"

text \<open>
  The \<open>forEach\<close> of the \<open>sortByHeight\<close> branch. \<open>offsetHeight\<close> is the rendered height
  of a column, read from the document: a function of the columns as they are now and of
  the column's index. \<open>appendChild\<close> on \<open>undefined\<close> throws a \<open>TypeError\<close>, which ends
  the loop.
\<close>

fun forEachSortByHeight ::
  "('a list list \<Rightarrow> nat \<Rightarrow> int) \<Rightarrow> 'a list list \<Rightarrow> 'a list \<Rightarrow> error + 'a list list" where
  "forEachSortByHeight offsetHeight cols [] = Inr cols"
| "forEachSortByHeight offsetHeight cols (item # items) =
     (case reduceColumns (offsetHeight cols) (length cols) of
        None \<Rightarrow> Inl TypeError
      | Some columnWithLeastHeight \<Rightarrow>
          forEachSortByHeight offsetHeight (appendChild cols columnWithLeastHeight item) items)"

text \<open>The \<open>forEach\<close> of the \<open>horizontalOrder\<close> branch: the measure is \<open>children.length\<close>.\<close>

fun forEachHorizontalOrder :: "'a list list \<Rightarrow> 'a list \<Rightarrow> error + 'a list list" where
  "forEachHorizontalOrder cols [] = Inr cols"
| "forEachHorizontalOrder cols (item # items) =
     (case reduceColumns (\<lambda>j. int (length (cols ! j))) (length cols) of
        None \<Rightarrow> Inl TypeError
      | Some columnWithFewestItems \<Rightarrow>
          forEachHorizontalOrder (appendChild cols columnWithFewestItems item) items)"

text \<open>
  \<open>index % this.columnCount\<close> for an index of the item array: \<open>NaN\<close> (\<open>None\<close>) when
  the count is zero or no number, else the remainder, which has the sign of the index.
\<close>

fun remainder :: "nat \<Rightarrow> jsvalue \<Rightarrow> nat option" where
  "remainder index (Num c) = (if c = 0 then None else Some (index mod nat \<bar>c\<bar>))"
| "remainder index NaN = None"
| "remainder index Undefined = None"

text \<open>
  The \<open>forEach\<close> of the last branch. \<open>columns[columnIndex]\<close> is \<open>undefined\<close> when the
  index is \<open>NaN\<close> or past the end of the array.
\<close>

fun forEachSequential ::
  "jsvalue \<Rightarrow> 'a list list \<Rightarrow> nat \<Rightarrow> 'a list \<Rightarrow> error + 'a list list" where
  "forEachSequential colCount cols index [] = Inr cols"
| "forEachSequential colCount cols index (item # items) =
     (case remainder index colCount of
        None \<Rightarrow> Inl TypeError
      | Some columnIndex \<Rightarrow>
          if columnIndex < length cols
          then forEachSequential colCount (appendChild cols columnIndex item) (Suc index) items
          else Inl TypeError)"

text \<open>
  \<open>createLayout\<close>: the columns are set up, then the items are distributed by the branch
  that the options select. An exception leaves the method; otherwise the container holds
  the new columns.
\<close>

definition createLayout ::
  "('a list list \<Rightarrow> nat \<Rightarrow> int) \<Rightarrow> 'a masonryLayout \<Rightarrow> error + 'a masonryLayout" where
  "createLayout offsetHeight this =
     (let cols = layoutColumns (columnCount this) (columns this);
          distributed =
            (if sortByHeight (masonryOptions this)
             then forEachSortByHeight offsetHeight cols (originalItems this)
             else if horizontalOrder (masonryOptions this)
             then forEachHorizontalOrder cols (originalItems this)
             else forEachSequential (columnCount this) cols 0 (originalItems this))
      in case distributed of
           Inl e \<Rightarrow> Inl e
         | Inr cols' \<Rightarrow> Inr (this\<lparr>columns := cols'\<rparr>))"

text \<open>
  A proof device: the distribution with the target column given by a function of the
  columns and the item's index, and without the exceptions.
\<close>

fun placeAll ::
  "('a list list \<Rightarrow> nat \<Rightarrow> nat) \<Rightarrow> 'a list list \<Rightarrow> nat \<Rightarrow> 'a list \<Rightarrow> 'a list list" where
  "placeAll pick cols index [] = cols"
| "placeAll pick cols index (item # items) =
     placeAll pick (cols[pick cols index := cols ! pick cols index @ [item]]) (Suc index) items"

text \<open>The column that the \<open>reduce\<close> finds, when there is one.\<close>

definition leastColumn :: "(nat \<Rightarrow> int) \<Rightarrow> nat \<Rightarrow> nat" where
  "leastColumn m n =
     foldl (\<lambda>shortest current. if m current < m shortest then current else shortest) 0 [0..<n]"

section \<open>Construction\<close>

text \<open>
  The constructor up to the first column count, for a container with the given children
  and options (the result of \<open>parseMasonryOptions\<close>), the text of its
  \<open>data-breakpoint-cols\<close> attribute, the outcome of \<open>JSON.parse\<close> on that text (\<open>Inl\<close>
  when it throws) and the width of the window. The exception of \<open>JSON.parse\<close> is caught;
  one raised by \<open>calculateColumnCount\<close> leaves the constructor. The first layout runs
  later, in an animation frame.
\<close>

definition constructor ::
  "'a list \<Rightarrow> masonryOptions \<Rightarrow> string \<Rightarrow> error + json \<Rightarrow> int \<Rightarrow> error + 'a masonryLayout" where
  "constructor children opts breakpointColsAttr parseResult windowWidth =
     (let (bp, out) =
            (case parseResult of
               Inr parsed \<Rightarrow>
                 ((case parsed of
                     JNull \<Rightarrow> Null
                   | JObject obj \<Rightarrow> Object obj
                   | JPrimitive n \<Rightarrow> Object [(Default, n)]),
                  [])
             | Inl e \<Rightarrow>
                 (Object [(Default, Num 2)],
                  [''Invalid `breakpointCols` format: '' @ breakpointColsAttr]))
      in case calculateColumnCount windowWidth bp of
           Inl e \<Rightarrow> Inl e
         | Inr n \<Rightarrow>
             Inr \<lparr>originalItems = children, defaultCols = 2, breakpointCols = bp,
                  columnCount = n, masonryOptions = opts, columns = [], console = out\<rparr>)"

section \<open>The rate limiter\<close>

text \<open>
  The variables that the function returned by \<open>throttle(func, limit)\<close> closes over:
  \<open>lastRan\<close> (\<open>None\<close> is \<open>undefined\<close>) and the timer \<open>lastFunc\<close>, which while pending
  holds the \<open>now\<close> and the arguments of the call that set it. \<open>applied\<close> lists the
  arguments with which \<open>func\<close> has been applied so far.
\<close>

record 'a throttled =
  lastFunc :: "(int \<times> 'a) option"
  lastRan :: "int option"
  applied :: "'a list"

text \<open>
  What happens to a throttled function: it is called, at the time \<open>Date.now()\<close> and with
  arguments, or its pending timer fires.
\<close>

datatype 'a event = Call int 'a | Timeout

text \<open>\<open>!lastRan\<close>: \<open>undefined\<close> and \<open>0\<close> are falsy.\<close>

definition notLastRan :: "'a throttled \<Rightarrow> bool" where
  "notLastRan s \<longleftrightarrow> (case lastRan s of None \<Rightarrow> True | Some t \<Rightarrow> t = 0)"

text \<open>
  A call applies \<open>func\<close> at once when \<open>lastRan\<close> is falsy; otherwise it clears the pending
  timer and sets a new one, whose callback tests \<open>now - lastRan >= limit\<close> with the
  \<open>now\<close> of that call. The callback reads no clock, so the time at which the timer fires
  is no part of the event.
\<close>

fun step :: "int \<Rightarrow> 'a throttled \<Rightarrow> 'a event \<Rightarrow> 'a throttled" where
  "step limit s (Call now args) =
     (if notLastRan s
      then s\<lparr>lastRan := Some now, applied := applied s @ [args]\<rparr>
      else s\<lparr>lastFunc := Some (now, args)\<rparr>)"
| "step limit s Timeout =
     (case lastFunc s of
        None \<Rightarrow> s
      | Some (now, args) \<Rightarrow>
          (case lastRan s of
             None \<Rightarrow> s\<lparr>lastFunc := None\<rparr>
           | Some ranAt \<Rightarrow>
               if now - ranAt \<ge> limit
               then s\<lparr>lastFunc := None, lastRan := Some now, applied := applied s @ [args]\<rparr>
               else s\<lparr>lastFunc := None\<rparr>))"

definition throttle :: "int \<Rightarrow> 'a event list \<Rightarrow> 'a throttled" where
  "throttle limit events =
     foldl (step limit) \<lparr>lastFunc = None, lastRan = None, applied = []\<rparr> events"

text \<open>
  A burst of ten resize signals within 200 ms, each with the width of the window at that
  moment, and then the timer.
\<close>

definition burst :: "int event list" where
  "burst =
     [Call 1000 1200, Call 1010 1150, Call 1020 1100, Call 1030 1050, Call 1040 1000,
      Call 1050 950, Call 1060 900, Call 1070 850, Call 1080 800, Call 1090 750, Timeout]"

text \<open>The target column of each branch of \<open>createLayout\<close>, for \<open>c\<close> columns.\<close>

definition pickColumn ::
  "('a list list \<Rightarrow> nat \<Rightarrow> int) \<Rightarrow> nat \<Rightarrow> masonryOptions \<Rightarrow> 'a list list \<Rightarrow> nat \<Rightarrow> nat" where
  "pickColumn offsetHeight c opts cols index =
     (if sortByHeight opts then leastColumn (offsetHeight cols) (length cols)
      else if horizontalOrder opts then leastColumn (\<lambda>j. int (length (cols ! j))) (length cols)
      else index mod c)"

text \<open>
  Round-robin shape: \<open>n\<close> items lie in \<open>c\<close> columns so that the first \<open>n mod c\<close> columns
  hold one item more than the others.
\<close>

definition balanced :: "nat \<Rightarrow> 'a list list \<Rightarrow> nat \<Rightarrow> bool" where
  "balanced c cols n \<longleftrightarrow>
     length cols = c \<and> (\<forall>j<c. length (cols ! j) = n div c + (if j < n mod c then 1 else 0))"

text \<open>The original index of an item: its position in the item array.\<close>

fun indexOf :: "'a list \<Rightarrow> 'a \<Rightarrow> nat" where
  "indexOf [] x = 0"
| "indexOf (y # ys) x = (if x = y then 0 else Suc (indexOf ys x))"

text \<open>
  A layout for the examples: five items, named by their heights, for two columns; and
  a column height that is the sum of its items' heights.
\<close>

definition exampleLayout :: "masonryOptions \<Rightarrow> int masonryLayout" where
  "exampleLayout opts =
     \<lparr>originalItems = [30, 10, 20, 50, 40], defaultCols = 2,
      breakpointCols = Object [(Default, Num 2)], columnCount = Num 2,
      masonryOptions = opts, columns = [], console = []\<rparr>"

text \<open>The three settings of the options that select a branch.\<close>

definition optionsSortByHeight :: masonryOptions where
  "optionsSortByHeight = \<lparr>sortByHeight = True, horizontalOrder = False, debug = False\<rparr>"

definition optionsHorizontalOrder :: masonryOptions where
  "optionsHorizontalOrder = \<lparr>sortByHeight = False, horizontalOrder = True, debug = False\<rparr>"

definition optionsSequential :: masonryOptions where
  "optionsSequential = \<lparr>sortByHeight = False, horizontalOrder = False, debug = False\<rparr>"

definition exampleHeight :: "int list list \<Rightarrow> nat \<Rightarrow> int" where
  "exampleHeight cols j = sum_list (cols ! j)"

text \<open>The table of the specification's example: thresholds 100 and 300, default 3.\<close>

definition exampleTable :: object where
  "exampleTable = [(Threshold 100, Num 1), (Threshold 300, Num 2), (Default, Num 3)]"

text \<open>
  Two tables with one threshold that is no safe integer: \<open>2^53 + 1\<close>, which is no
  double, and \<open>10^21\<close>, whose property name is \<open>"1e+21"\<close>.
\<close>

definition unsafeTable :: object where
  "unsafeTable = [(Threshold 9007199254740993, Num 1), (Default, Num 3)]"

definition exponentTable :: object where
  "exponentTable = [(Threshold 1000000000000000000000, Num 1), (Default, Num 3)]"

section \<open>The breakpoint resolver\<close>

lemma shiftOf_small: "m < 2 ^ 53 \<Longrightarrow> shiftOf m = 0"
  by (subst shiftOf.simps) simp

lemma shiftOf_large:
  "\<not> m < 2 ^ 53 \<Longrightarrow> 0 < shiftOf m \<and> 2 ^ 52 \<le> m div 2 ^ shiftOf m"
proof (induction m rule: shiftOf.induct)
  case (1 m)
  have unfold: "shiftOf m = Suc (shiftOf (m div 2))"
    using "1.prems" by (subst shiftOf.simps) simp
  have divs: "m div 2 ^ Suc (shiftOf (m div 2)) = (m div 2) div 2 ^ shiftOf (m div 2)"
    by (simp add: zdiv_zmult2_eq)
  show ?case
  proof (cases "m div 2 < 2 ^ 53")
    case True
    then have "shiftOf (m div 2) = 0" by (rule shiftOf_small)
    moreover have "(2::int) ^ 52 \<le> m div 2" using "1.prems" by simp
    ultimately show ?thesis using unfold by simp
  next
    case False
    with "1.IH" "1.prems" have "2 ^ 52 \<le> (m div 2) div 2 ^ shiftOf (m div 2)" by simp
    then show ?thesis using unfold divs by simp
  qed
qed

lemma nearestDouble_small: "m < 2 ^ 53 \<Longrightarrow> nearestDouble m = Some m"
proof -
  assume m: "m < 2 ^ 53"
  have "(2::int) ^ 53 < 2 ^ 1024" by (rule power_strict_increasing) simp_all
  with m have "m < 2 ^ 1024" by (rule less_trans)
  with m show ?thesis by (simp add: nearestDouble_def shiftOf_small)
qed

lemma nearestDouble_large:
  assumes "\<not> c < 2 ^ 53" "nearestDouble c = Some x"
  shows "2 ^ 53 \<le> x"
proof -
  let ?s = "shiftOf c"
  let ?q = "c div 2 ^ ?s"
  from shiftOf_large [OF assms(1)] have s: "0 < ?s" and q: "2 ^ 52 \<le> ?q" by simp_all
  define q' where
    "q' = (if 2 ^ ?s < 2 * (c mod 2 ^ ?s) \<or> (2 * (c mod 2 ^ ?s) = 2 ^ ?s \<and> odd ?q)
           then ?q + 1 else ?q)"
  have q': "?q \<le> q'" by (simp add: q'_def)
  from assms(2) have "(if q' * 2 ^ ?s < 2 ^ 1024 then Some (q' * 2 ^ ?s) else None) = Some x"
    unfolding nearestDouble_def Let_def q'_def .
  then have x: "x = q' * 2 ^ ?s"
    by (cases "q' * 2 ^ ?s < 2 ^ 1024") simp_all
  have "(2::int) ^ 1 \<le> 2 ^ ?s" using s by (intro power_increasing) simp_all
  moreover have "(2::int) ^ 52 \<le> q'" using q q' by simp
  ultimately have "(2::int) ^ 52 * 2 ^ 1 \<le> q' * 2 ^ ?s"
    by (intro mult_mono) simp_all
  then show ?thesis using x by simp
qed

lemma nearestDouble_safe:
  assumes "nearestDouble c = Some x" "x < 2 ^ 53"
  shows "c = x"
proof (cases "c < 2 ^ 53")
  case True
  then show ?thesis using assms(1) by (simp add: nearestDouble_small)
next
  case False
  from nearestDouble_large [OF False assms(1)] assms(2) show ?thesis by simp
qed

lemma shortestDecimal_safe: "x < 2 ^ 53 \<Longrightarrow> shortestDecimal x p = x"
proof (induction x p rule: shortestDecimal.induct)
  case (1 x p)
  have same: "\<And>c. nearestDouble c = Some x \<Longrightarrow> c = x"
    using "1.prems" by (rule nearestDouble_safe [rotated])
  show ?case
  proof (cases "p \<le> 1")
    case True
    then show ?thesis by (subst shortestDecimal.simps) simp
  next
    case False
    let ?lo = "(x div p) * p"
    let ?hi = "?lo + p"
    show ?thesis
    proof (cases "nearestDouble ?lo = Some x \<or> nearestDouble ?hi = Some x")
      case True
      then show ?thesis
        using False same by (subst shortestDecimal.simps) (auto simp: Let_def)
    next
      case none: False
      then have "shortestDecimal x (p div 10) = x"
        using "1.IH" [OF False refl refl refl refl] "1.prems" by simp
      then show ?thesis
        using False none by (subst shortestDecimal.simps) (simp add: Let_def)
    qed
  qed
qed

lemma toNumber_safe: "\<bar>t\<bar> < 2 ^ 53 \<Longrightarrow> toNumber t = Finite t"
proof -
  assume "\<bar>t\<bar> < 2 ^ 53"
  then have "nearestDouble \<bar>t\<bar> = Some \<bar>t\<bar>" by (rule nearestDouble_small)
  then show ?thesis by (simp add: toNumber_def)
qed

lemma toPropertyKey_safe: "\<bar>t\<bar> < 2 ^ 53 \<Longrightarrow> toPropertyKey (Finite t) = Some (Threshold t)"
proof -
  assume t: "\<bar>t\<bar> < 2 ^ 53"
  then have "shortestDecimal \<bar>t\<bar> (topPower \<bar>t\<bar>) = \<bar>t\<bar>"
    by (rule shortestDecimal_safe)
  moreover have "\<bar>t\<bar> < 10 ^ 21" using t by simp
  moreover have "sgn t * \<bar>t\<bar> = t" by (simp add: mult_sgn_abs)
  ultimately show ?thesis by simp
qed

lemma Finite_le: "Finite x \<le> Finite y \<longleftrightarrow> x \<le> y"
  by (simp add: less_eq_number_def)

lemma Finite_less: "Finite x < Finite y \<longleftrightarrow> x < y"
  unfolding less_number_def less_eq_number_def by auto

lemma sort_map_Finite: "sort (map Finite ts) = map Finite (sort ts)"
proof (rule properties_for_sort)
  show "mset (map Finite (sort ts)) = mset (map Finite ts)" by simp
  have "sorted (sort ts)" by simp
  then show "sorted (map Finite (sort ts))"
    by (simp add: sorted_map sorted_wrt_iff_nth_less Finite_le)
qed

lemma matchBreakpoint_none:
  "\<forall>b \<in> set bs. b < Finite w \<Longrightarrow> matchBreakpoint w obj d bs = d"
  by (induction bs) auto

lemma matchBreakpoint_first:
  "sorted bs \<Longrightarrow> \<forall>t \<in> set bs. \<bar>t\<bar> < 2 ^ 53 \<Longrightarrow> \<exists>t \<in> set bs. w \<le> t \<Longrightarrow>
   matchBreakpoint w obj d (map Finite bs) = get obj (Threshold (Min {t \<in> set bs. w \<le> t}))"
proof (induction bs)
  case Nil
  then show ?case by simp
next
  case (Cons b bs)
  have "\<bar>b\<bar> < 2 ^ 53" using Cons.prems(2) by simp
  then have "toPropertyKey (Finite b) = Some (Threshold b)" by (rule toPropertyKey_safe)
  then have key: "getNumber obj (Finite b) = get obj (Threshold b)"
    by (simp only: getNumber_def option.case)
  have le: "Finite w \<le> Finite b \<longleftrightarrow> w \<le> b" by (rule Finite_le)
  show ?case
  proof (cases "w \<le> b")
    case True
    have "Min {t \<in> set (b # bs). w \<le> t} = b"
    proof (rule Min_eqI)
      show "finite {t \<in> set (b # bs). w \<le> t}" by simp
      show "b \<in> {t \<in> set (b # bs). w \<le> t}" using True by simp
      fix y assume "y \<in> {t \<in> set (b # bs). w \<le> t}"
      then show "b \<le> y" using Cons.prems(1) by auto
    qed
    with True key le show ?thesis by simp
  next
    case False
    then have eq: "{t \<in> set (b # bs). w \<le> t} = {t \<in> set bs. w \<le> t}" by auto
    from False Cons.prems have "\<exists>t \<in> set bs. w \<le> t" by auto
    moreover from Cons.prems have "sorted bs" "\<forall>t \<in> set bs. \<bar>t\<bar> < 2 ^ 53" by simp_all
    ultimately have "matchBreakpoint w obj d (map Finite bs) =
        get obj (Threshold (Min {t \<in> set bs. w \<le> t}))"
      by (intro Cons.IH)
    then show ?thesis using False eq le by simp
  qed
qed

lemma set_thresholds: "set (thresholds obj) = {t. Threshold t \<in> fst ` set obj}"
  by (induction obj rule: thresholds.induct) (auto simp: image_iff)

lemma breakpoints_safe:
  assumes "\<forall>t \<in> set ts. \<bar>t\<bar> < 2 ^ 53"
  shows "sort (map toNumber ts) = map Finite (sort ts)"
proof -
  have "map toNumber ts = map Finite ts"
  proof (rule map_cong)
    show "ts = ts" ..
    fix t assume "t \<in> set ts"
    with assms have "\<bar>t\<bar> < 2 ^ 53" by blast
    then show "toNumber t = Finite t" by (rule toNumber_safe)
  qed
  then have "sort (map toNumber ts) = sort (map Finite ts)" by (rule arg_cong)
  also have "\<dots> = map Finite (sort ts)" by (rule sort_map_Finite)
  finally show ?thesis .
qed

lemma calculateColumnCount_safe:
  assumes "\<forall>t \<in> set (thresholds T). \<bar>t\<bar> < 2 ^ 53"
  shows "calculateColumnCount w (Object T) =
     Inr (if \<exists>t. Threshold t \<in> fst ` set T \<and> w \<le> t
          then get T (Threshold (Min {t. Threshold t \<in> fst ` set T \<and> w \<le> t}))
          else get T Default)"
proof -
  let ?bs = "sort (thresholds T)"
  have set_bs: "set ?bs = {t. Threshold t \<in> fst ` set T}"
    by (simp add: set_thresholds)
  have run: "calculateColumnCount w (Object T) =
      Inr (matchBreakpoint w T (get T Default) (map Finite ?bs))"
    using breakpoints_safe [OF assms] by (simp add: calculateColumnCount_def)
  have safe: "\<forall>t \<in> set ?bs. \<bar>t\<bar> < 2 ^ 53" using assms by simp
  have "matchBreakpoint w T (get T Default) (map Finite ?bs) =
     (if \<exists>t. Threshold t \<in> fst ` set T \<and> w \<le> t
      then get T (Threshold (Min {t. Threshold t \<in> fst ` set T \<and> w \<le> t}))
      else get T Default)"
  proof (cases "\<exists>t \<in> set ?bs. w \<le> t")
    case True
    have "{t \<in> set ?bs. w \<le> t} = {t. Threshold t \<in> fst ` set T \<and> w \<le> t}"
      using set_bs by auto
    moreover have "matchBreakpoint w T (get T Default) (map Finite ?bs) =
        get T (Threshold (Min {t \<in> set ?bs. w \<le> t}))"
      using safe True by (intro matchBreakpoint_first) simp_all
    moreover have "\<exists>t. Threshold t \<in> fst ` set T \<and> w \<le> t"
      using True set_bs by auto
    ultimately show ?thesis by (simp only: if_True)
  next
    case False
    then have "\<forall>b \<in> set (map Finite ?bs). b < Finite w"
      by (auto simp: Finite_less)
    then have "matchBreakpoint w T (get T Default) (map Finite ?bs) = get T Default"
      by (rule matchBreakpoint_none)
    moreover have "\<not> (\<exists>t. Threshold t \<in> fst ` set T \<and> w \<le> t)"
      using False set_bs by auto
    ultimately show ?thesis by (simp only: if_False)
  qed
  with run show ?thesis by simp
qed

text \<open>
  C1, as the claim states it, fails. The threshold \<open>9007199254740993\<close> is read by
  \<open>Number\<close> as \<open>9007199254740992\<close>, and the table has no entry of that name; the
  threshold \<open>10^21\<close> is looked up under the name \<open>"1e+21"\<close>. At the width 50, which
  neither threshold is below, the resolver returns \<open>undefined\<close> and not the entry of the
  threshold, which is 1.
\<close>

theorem calculateColumnCount_unsafe_threshold:
  "calculateColumnCount 50 (Object unsafeTable) = Inr Undefined
   \<and> get unsafeTable (Threshold 9007199254740993) = Num 1
   \<and> calculateColumnCount 50 (Object exponentTable) = Inr Undefined
   \<and> get exponentTable (Threshold 1000000000000000000000) = Num 1"
proof -
  have n1: "toNumber 9007199254740993 = Finite 9007199254740992" by code_simp
  have k1: "toPropertyKey (Finite 9007199254740992) = Some (Threshold 9007199254740992)"
    by code_simp
  have "sort (map toNumber (thresholds unsafeTable)) = sort [toNumber 9007199254740993]"
    by (simp add: unsafeTable_def)
  then have bs1: "sort (map toNumber (thresholds unsafeTable)) = [Finite 9007199254740992]"
    by (simp only: n1 sort_key_simps insort_key.simps)
  have "getNumber unsafeTable (Finite 9007199254740992) =
      get unsafeTable (Threshold 9007199254740992)"
    by (simp only: getNumber_def k1 option.case)
  then have g1: "getNumber unsafeTable (Finite 9007199254740992) = Undefined"
    by (simp add: get_def unsafeTable_def)
  have "matchBreakpoint 50 unsafeTable (get unsafeTable Default) [Finite 9007199254740992] =
      getNumber unsafeTable (Finite 9007199254740992)"
    by (simp add: Finite_le)
  then have r1: "calculateColumnCount 50 (Object unsafeTable) = Inr Undefined"
    by (simp only: calculateColumnCount_def breakpoints.case bs1 g1)
  have e1: "get unsafeTable (Threshold 9007199254740993) = Num 1"
    by (simp add: get_def unsafeTable_def)
  have n2: "toNumber 1000000000000000000000 = Finite 1000000000000000000000" by code_simp
  have k2: "toPropertyKey (Finite 1000000000000000000000) = None" by code_simp
  have "sort (map toNumber (thresholds exponentTable)) = sort [toNumber 1000000000000000000000]"
    by (simp add: exponentTable_def)
  then have bs2: "sort (map toNumber (thresholds exponentTable)) =
      [Finite 1000000000000000000000]"
    by (simp only: n2 sort_key_simps insort_key.simps)
  have g2: "getNumber exponentTable (Finite 1000000000000000000000) = Undefined"
    by (simp only: getNumber_def k2 option.case)
  have "matchBreakpoint 50 exponentTable (get exponentTable Default)
        [Finite 1000000000000000000000] =
      getNumber exponentTable (Finite 1000000000000000000000)"
    by (simp add: Finite_le)
  then have r2: "calculateColumnCount 50 (Object exponentTable) = Inr Undefined"
    by (simp only: calculateColumnCount_def breakpoints.case bs2 g2)
  have e2: "get exponentTable (Threshold 1000000000000000000000) = Num 1"
    by (simp add: get_def exponentTable_def)
  from r1 e1 r2 e2 show ?thesis by (intro conjI)
qed

text \<open>
  C1, amended. For every width and every breakpoint table whose threshold keys are the
  decimal numerals of safe integers (below \<open>2^53\<close> in magnitude), the resolver returns
  the entry of the smallest threshold that the width does not exceed (the comparison is
  inclusive), and the table's default when the width exceeds every threshold. On the table with thresholds
  100 and 300 for 1 and 2 columns and default 3, the widths 50, 100, 250 and 400 resolve
  to 1, 1, 2 and 3 columns.
\<close>

theorem calculateColumnCount_resolves:
  assumes "\<forall>t. Threshold t \<in> fst ` set T \<longrightarrow> \<bar>t\<bar> < 2 ^ 53"
  shows "calculateColumnCount w (Object T) =
     Inr (if \<exists>t. Threshold t \<in> fst ` set T \<and> w \<le> t
          then get T (Threshold (Min {t. Threshold t \<in> fst ` set T \<and> w \<le> t}))
          else get T Default)
   \<and> calculateColumnCount 50 (Object exampleTable) = Inr (Num 1)
   \<and> calculateColumnCount 100 (Object exampleTable) = Inr (Num 1)
   \<and> calculateColumnCount 250 (Object exampleTable) = Inr (Num 2)
   \<and> calculateColumnCount 400 (Object exampleTable) = Inr (Num 3)"
proof -
  have "\<forall>t \<in> set (thresholds T). \<bar>t\<bar> < 2 ^ 53"
    using assms by (simp add: set_thresholds)
  then have general: "calculateColumnCount w (Object T) =
     Inr (if \<exists>t. Threshold t \<in> fst ` set T \<and> w \<le> t
          then get T (Threshold (Min {t. Threshold t \<in> fst ` set T \<and> w \<le> t}))
          else get T Default)"
    by (rule calculateColumnCount_safe)
  have n: "toNumber 100 = Finite 100" "toNumber 300 = Finite 300"
    by (rule toNumber_safe, simp)+
  have k: "toPropertyKey (Finite 100) = Some (Threshold 100)"
    "toPropertyKey (Finite 300) = Some (Threshold 300)"
    by (rule toPropertyKey_safe, simp)+
  have ex: "calculateColumnCount 50 (Object exampleTable) = Inr (Num 1)"
    "calculateColumnCount 100 (Object exampleTable) = Inr (Num 1)"
    "calculateColumnCount 250 (Object exampleTable) = Inr (Num 2)"
    "calculateColumnCount 400 (Object exampleTable) = Inr (Num 3)"
    using n k
    by (simp_all add: calculateColumnCount_def exampleTable_def getNumber_def get_def
        Finite_le)
  show ?thesis
    using general ex by simp
qed

theorem calculateColumnCount_resolves_witness:
  "thresholds exampleTable = [100, 300]
   \<and> \<bar>100 :: int\<bar> < 2 ^ 53 \<and> \<bar>300 :: int\<bar> < 2 ^ 53
   \<and> calculateColumnCount 250 (Object exampleTable) = Inr (get exampleTable (Threshold 300))
   \<and> get exampleTable (Threshold 300) = Num 2"
proof -
  have h: "\<forall>t. Threshold t \<in> fst ` set exampleTable \<longrightarrow> \<bar>t\<bar> < 2 ^ 53"
    by (auto simp: exampleTable_def)
  have "{t. Threshold t \<in> fst ` set exampleTable \<and> (250::int) \<le> t} = {300}"
    by (auto simp: exampleTable_def)
  moreover have "\<exists>t. Threshold t \<in> fst ` set exampleTable \<and> (250::int) \<le> t"
    by (auto simp: exampleTable_def intro: exI [of _ 300])
  ultimately show ?thesis
    using calculateColumnCount_resolves [OF h, of 250]
    by (simp add: exampleTable_def get_def)
qed

section \<open>Lemmas about the distribution loops\<close>

lemma leastColumn_Suc:
  "leastColumn m (Suc n) =
     (if m n < m (leastColumn m n) then n else leastColumn m n)"
  by (simp add: leastColumn_def)

lemma leastColumn_props:
  "leastColumn m (Suc n) < Suc n
   \<and> (\<forall>i<Suc n. m (leastColumn m (Suc n)) \<le> m i)
   \<and> (\<forall>i<leastColumn m (Suc n). m (leastColumn m (Suc n)) < m i)"
proof (induction n)
  case 0
  show ?case by (simp add: leastColumn_def)
next
  case (Suc n)
  let ?r = "leastColumn m (Suc n)"
  show ?case
  proof (cases "m (Suc n) < m ?r")
    case True
    then have eq: "leastColumn m (Suc (Suc n)) = Suc n"
      by (simp add: leastColumn_Suc [of m "Suc n"])
    from True Suc.IH have "\<forall>i<Suc n. m (Suc n) < m i" by force
    then show ?thesis unfolding eq by (auto simp: less_Suc_eq)
  next
    case False
    then have eq: "leastColumn m (Suc (Suc n)) = ?r"
      by (simp add: leastColumn_Suc [of m "Suc n"])
    from False Suc.IH show ?thesis unfolding eq by (auto simp: less_Suc_eq)
  qed
qed

lemma leastColumn_less: "0 < n \<Longrightarrow> leastColumn m n < n"
  using leastColumn_props [of m "n - 1"] by simp

lemma leastColumn_le: "i < n \<Longrightarrow> m (leastColumn m n) \<le> m i"
  using leastColumn_props [of m "n - 1"] by (cases n) auto

lemma leastColumn_first: "i < leastColumn m n \<Longrightarrow> m (leastColumn m n) < m i"
  using leastColumn_props [of m "n - 1"] by (cases n) (auto simp: leastColumn_def)

lemma reduceColumns_least:
  "reduceColumns m n = (if n = 0 then None else Some (leastColumn m n))"
  by (simp add: reduceColumns_def leastColumn_def)

lemma appendChild_fresh:
  "item \<notin> set (concat cols) \<Longrightarrow> appendChild cols j item = cols[j := cols ! j @ [item]]"
proof -
  assume "item \<notin> set (concat cols)"
  then have "map (removeAll item) cols = cols"
    by (intro map_idI removeAll_id) auto
  then show ?thesis by (simp add: appendChild_def)
qed

lemma set_concat_update:
  "set (concat (cols[j := cols ! j @ [item]])) \<subseteq> insert item (set (concat cols))"
proof
  fix x assume "x \<in> set (concat (cols[j := cols ! j @ [item]]))"
  then obtain ys where ys: "ys \<in> set (cols[j := cols ! j @ [item]])" "x \<in> set ys" by auto
  show "x \<in> insert item (set (concat cols))"
  proof (cases "j < length cols")
    case True
    from ys(1) have "ys = cols ! j @ [item] \<or> ys \<in> set cols"
      using set_update_subset_insert [of cols j] by auto
    with ys(2) True show ?thesis by auto
  next
    case False
    then have "cols[j := cols ! j @ [item]] = cols" by (simp add: list_update_beyond)
    with ys show ?thesis by auto
  qed
qed

lemma forEachSortByHeight_placeAll:
  "cols \<noteq> [] \<Longrightarrow> distinct items \<Longrightarrow> set items \<inter> set (concat cols) = {} \<Longrightarrow>
   forEachSortByHeight h cols items =
     Inr (placeAll (\<lambda>cs i. leastColumn (h cs) (length cs)) cols index items)"
proof (induction items arbitrary: cols index)
  case Nil
  show ?case by simp
next
  case (Cons x xs)
  let ?j = "leastColumn (h cols) (length cols)"
  let ?cols = "cols[?j := cols ! ?j @ [x]]"
  from Cons.prems have fresh: "x \<notin> set (concat cols)" by auto
  have "?cols \<noteq> []" using Cons.prems by simp
  moreover have "distinct xs" using Cons.prems by simp
  moreover have "set xs \<inter> set (concat ?cols) = {}"
    using Cons.prems set_concat_update [of cols ?j x] by auto
  ultimately have "forEachSortByHeight h ?cols xs =
      Inr (placeAll (\<lambda>cs i. leastColumn (h cs) (length cs)) ?cols (Suc index) xs)"
    by (rule Cons.IH)
  with Cons.prems(1) fresh show ?case
    by (simp add: reduceColumns_least appendChild_fresh)
qed

lemma forEachHorizontalOrder_placeAll:
  "cols \<noteq> [] \<Longrightarrow> distinct items \<Longrightarrow> set items \<inter> set (concat cols) = {} \<Longrightarrow>
   forEachHorizontalOrder cols items =
     Inr (placeAll (\<lambda>cs i. leastColumn (\<lambda>j. int (length (cs ! j))) (length cs)) cols index items)"
proof (induction items arbitrary: cols index)
  case Nil
  show ?case by simp
next
  case (Cons x xs)
  let ?j = "leastColumn (\<lambda>j. int (length (cols ! j))) (length cols)"
  let ?cols = "cols[?j := cols ! ?j @ [x]]"
  from Cons.prems have fresh: "x \<notin> set (concat cols)" by auto
  have "?cols \<noteq> []" using Cons.prems by simp
  moreover have "distinct xs" using Cons.prems by simp
  moreover have "set xs \<inter> set (concat ?cols) = {}"
    using Cons.prems set_concat_update [of cols ?j x] by auto
  ultimately have "forEachHorizontalOrder ?cols xs =
      Inr (placeAll (\<lambda>cs i. leastColumn (\<lambda>j. int (length (cs ! j))) (length cs)) ?cols (Suc index) xs)"
    by (rule Cons.IH)
  with Cons.prems(1) fresh show ?case
    by (simp add: reduceColumns_least appendChild_fresh)
qed

lemma forEachSequential_placeAll:
  "0 < c \<Longrightarrow> length cols = c \<Longrightarrow> distinct items \<Longrightarrow> set items \<inter> set (concat cols) = {} \<Longrightarrow>
   forEachSequential (Num (int c)) cols index items =
     Inr (placeAll (\<lambda>cs i. i mod c) cols index items)"
proof (induction items arbitrary: cols index)
  case Nil
  show ?case by simp
next
  case (Cons x xs)
  let ?j = "index mod c"
  let ?cols = "cols[?j := cols ! ?j @ [x]]"
  from Cons.prems have fresh: "x \<notin> set (concat cols)" by auto
  have "length ?cols = c" using Cons.prems by simp
  moreover have "distinct xs" using Cons.prems by simp
  moreover have "set xs \<inter> set (concat ?cols) = {}"
    using Cons.prems set_concat_update [of cols ?j x] by auto
  ultimately have "forEachSequential (Num (int c)) ?cols (Suc index) xs =
      Inr (placeAll (\<lambda>cs i. i mod c) ?cols (Suc index) xs)"
    using Cons.prems(1) by (intro Cons.IH)
  with Cons.prems(1,2) fresh show ?case
    by (simp add: appendChild_fresh)
qed


lemma length_placeAll [simp]: "length (placeAll pick cols index items) = length cols"
  by (induction items arbitrary: cols index) simp_all

lemma placeAll_snoc:
  "placeAll pick cols index (items @ [item]) =
     (let s = placeAll pick cols index items; j = pick s (index + length items)
      in s[j := s ! j @ [item]])"
  by (induction items arbitrary: cols index) (simp_all add: Let_def)

lemma mset_concat_update:
  "j < length cols \<Longrightarrow>
   mset (concat (cols[j := cols ! j @ [item]])) = add_mset item (mset (concat cols))"
proof (induction cols arbitrary: j)
  case Nil
  then show ?case by simp
next
  case (Cons a cols)
  then show ?case by (cases j) simp_all
qed

lemma mset_placeAll:
  "\<forall>cs i. length cs = length cols \<longrightarrow> pick cs i < length cols \<Longrightarrow>
   mset (concat (placeAll pick cols index items)) = mset (concat cols) + mset items"
proof (induction items rule: rev_induct)
  case Nil
  show ?case by simp
next
  case (snoc x xs)
  let ?s = "placeAll pick cols index xs"
  have "pick ?s (index + length xs) < length ?s" using snoc.prems by simp
  then show ?case using snoc by (simp add: placeAll_snoc Let_def mset_concat_update)
qed

lemma subseq_placeAll:
  "k < length cols \<Longrightarrow>
   \<exists>ys. placeAll pick cols index items ! k = cols ! k @ ys \<and> subseq ys items"
proof (induction items rule: rev_induct)
  case Nil
  show ?case by simp
next
  case (snoc x xs)
  let ?s = "placeAll pick cols index xs"
  let ?j = "pick ?s (index + length xs)"
  from snoc obtain ys where ys: "?s ! k = cols ! k @ ys" "subseq ys xs" by auto
  have eq: "placeAll pick cols index (xs @ [x]) = ?s[?j := ?s ! ?j @ [x]]"
    by (simp add: placeAll_snoc Let_def)
  show ?case
  proof (cases "?j = k")
    case True
    then have "placeAll pick cols index (xs @ [x]) ! k = cols ! k @ (ys @ [x])"
      using eq ys(1) snoc.prems by simp
    moreover have "subseq (ys @ [x]) (xs @ [x])"
      using ys(2) by (intro list_emb_append_mono) simp_all
    ultimately show ?thesis by blast
  next
    case False
    then have "placeAll pick cols index (xs @ [x]) ! k = cols ! k @ ys"
      using eq ys(1) by simp
    moreover have "subseq ys (xs @ [x])" using ys(2) by (rule subseq_rev_drop_many)
    ultimately show ?thesis by blast
  qed
qed

lemma distinct_concat_disjoint:
  "distinct (concat xss) \<Longrightarrow> i < j \<Longrightarrow> j < length xss \<Longrightarrow>
   set (xss ! i) \<inter> set (xss ! j) = {}"
proof (induction xss arbitrary: i j)
  case Nil
  then show ?case by simp
next
  case (Cons a xss)
  from Cons.prems obtain j' where j: "j = Suc j'" by (cases j) auto
  show ?case
  proof (cases i)
    case 0
    have "xss ! j' \<in> set xss" using Cons.prems j by simp
    then show ?thesis using Cons.prems(1) 0 j by auto
  next
    case (Suc i')
    then show ?thesis using Cons j by simp
  qed
qed

lemma distinct_concat_unique:
  assumes "distinct (concat xss)" "i < length xss" "j < length xss"
    "x \<in> set (xss ! i)" "x \<in> set (xss ! j)"
  shows "i = j"
proof (rule ccontr)
  assume "i \<noteq> j"
  then consider "i < j" | "j < i" by linarith
  then show False
    using assms distinct_concat_disjoint [of xss i j] distinct_concat_disjoint [of xss j i]
    by cases auto
qed

lemma layoutColumns_Num: "layoutColumns (Num (int c)) existing = replicate c []"
  by (simp add: layoutColumns_def map_replicate_const)

lemma pickColumn_less:
  "0 < c \<Longrightarrow> length cs = c \<Longrightarrow> pickColumn h c opts cs i < c"
  by (simp add: pickColumn_def leastColumn_less)

lemma createLayout_placeAll:
  assumes "columnCount this = Num (int c)" "0 < c" "distinct (originalItems this)"
  shows "createLayout h this =
     Inr (this\<lparr>columns :=
       placeAll (pickColumn h c (masonryOptions this)) (replicate c []) 0 (originalItems this)\<rparr>)"
proof -
  let ?cols = "replicate c []" and ?items = "originalItems this"
  have ne: "?cols \<noteq> []" and len: "length ?cols = c" using assms(2) by simp_all
  have fresh: "set ?items \<inter> set (concat ?cols) = {}" by simp
  have a: "forEachSortByHeight h ?cols ?items =
      Inr (placeAll (\<lambda>cs i. leastColumn (h cs) (length cs)) ?cols 0 ?items)"
    using ne assms(3) fresh by (rule forEachSortByHeight_placeAll)
  have b: "forEachHorizontalOrder ?cols ?items =
      Inr (placeAll (\<lambda>cs i. leastColumn (\<lambda>j. int (length (cs ! j))) (length cs)) ?cols 0 ?items)"
    using ne assms(3) fresh by (rule forEachHorizontalOrder_placeAll)
  have c: "forEachSequential (Num (int c)) ?cols 0 ?items =
      Inr (placeAll (\<lambda>cs i. i mod c) ?cols 0 ?items)"
    using assms(2) len assms(3) fresh by (rule forEachSequential_placeAll)
  show ?thesis
  proof (cases "sortByHeight (masonryOptions this)")
    case True
    then have "pickColumn h c (masonryOptions this) = (\<lambda>cs i. leastColumn (h cs) (length cs))"
      by (simp add: pickColumn_def fun_eq_iff)
    with True a assms(1) show ?thesis
      by (simp add: createLayout_def layoutColumns_Num)
  next
    case False
    show ?thesis
    proof (cases "horizontalOrder (masonryOptions this)")
      case True
      with False have "pickColumn h c (masonryOptions this) =
          (\<lambda>cs i. leastColumn (\<lambda>j. int (length (cs ! j))) (length cs))"
        by (simp add: pickColumn_def fun_eq_iff)
      with True False b assms(1) show ?thesis
        by (simp add: createLayout_def layoutColumns_Num)
    next
      case no: False
      with False have "pickColumn h c (masonryOptions this) = (\<lambda>cs i. i mod c)"
        by (simp add: pickColumn_def fun_eq_iff)
      with no False c assms(1) show ?thesis
        by (simp add: createLayout_def layoutColumns_Num)
    qed
  qed
qed

lemma placeAll_sequential_nth:
  assumes "k < length cols" "length cols = c"
  shows "placeAll (\<lambda>cs i. i mod c) cols index items ! k =
     cols ! k @ map ((!) items) (filter (\<lambda>i. (index + i) mod c = k) [0..<length items])"
proof (induction items rule: rev_induct)
  case Nil
  show ?case by simp
next
  case (snoc x xs)
  let ?s = "placeAll (\<lambda>cs i. i mod c) cols index xs"
  let ?n = "length xs"
  have old: "map ((!) (xs @ [x])) (filter (\<lambda>i. (index + i) mod c = k) [0..<?n]) =
             map ((!) xs) (filter (\<lambda>i. (index + i) mod c = k) [0..<?n])"
    by (rule map_cong) (auto simp: nth_append)
  show ?case
  proof (cases "(index + ?n) mod c = k")
    case True
    then show ?thesis
      using snoc assms old by (simp add: placeAll_snoc Let_def)
  next
    case False
    then show ?thesis
      using snoc assms old by (simp add: placeAll_snoc Let_def)
  qed
qed

lemma balanced_least:
  assumes "balanced c cols n" "0 < c"
  shows "leastColumn (\<lambda>j. int (length (cols ! j))) (length cols) = n mod c"
proof -
  let ?m = "\<lambda>j. int (length (cols ! j))"
  let ?r = "leastColumn ?m c" and ?q = "n mod c"
  have len: "length cols = c" using assms(1) by (simp add: balanced_def)
  have q: "?q < c" using assms(2) by simp
  have r: "?r < c" using assms(2) by (rule leastColumn_less)
  have val: "\<And>j. j < c \<Longrightarrow> ?m j = int (n div c) + (if j < ?q then 1 else 0)"
    using assms(1) by (simp add: balanced_def)
  have "?m ?r \<le> ?m ?q" using q by (rule leastColumn_le)
  then have "\<not> ?r < ?q" using val [OF r] val [OF q] by auto
  moreover have "\<not> ?q < ?r"
  proof
    assume "?q < ?r"
    then have "?m ?r < ?m ?q" by (rule leastColumn_first)
    then show False using val [OF r] val [OF q] \<open>?q < ?r\<close> by auto
  qed
  ultimately show ?thesis using len by simp
qed

lemma balanced_step:
  assumes "balanced c cols n" "0 < c"
  shows "balanced c (cols[n mod c := cols ! (n mod c) @ [x]]) (Suc n)"
proof -
  have len: "length cols = c" using assms(1) by (simp add: balanced_def)
  have val: "\<And>j. j < c \<Longrightarrow> length (cols ! j) = n div c + (if j < n mod c then 1 else 0)"
    using assms(1) by (simp add: balanced_def)
  have q: "n mod c < c" using assms(2) by simp
  show ?thesis
    unfolding balanced_def
  proof (intro conjI allI impI)
    show "length (cols[n mod c := cols ! (n mod c) @ [x]]) = c" using len by simp
  next
    fix j assume j: "j < c"
    show "length (cols[n mod c := cols ! (n mod c) @ [x]] ! j) =
            Suc n div c + (if j < Suc n mod c then 1 else 0)"
    proof (cases "Suc (n mod c) = c")
      case True
      then have "Suc n mod c = 0" "Suc n div c = Suc (n div c)"
        by (simp_all add: mod_Suc div_Suc)
      moreover from True j have "j < n mod c \<or> j = n mod c" by auto
      ultimately show ?thesis using val [OF j] len j by (auto simp: nth_list_update)
    next
      case False
      then have "Suc n mod c = Suc (n mod c)" "Suc n div c = n div c"
        by (simp_all add: mod_Suc div_Suc)
      then show ?thesis using val [OF j] len j by (auto simp: nth_list_update)
    qed
  qed
qed

lemma placeAll_fewest_sequential:
  "balanced c cols n \<Longrightarrow> 0 < c \<Longrightarrow>
   placeAll (\<lambda>cs i. leastColumn (\<lambda>j. int (length (cs ! j))) (length cs)) cols index items =
   placeAll (\<lambda>cs i. i mod c) cols n items
   \<and> balanced c (placeAll (\<lambda>cs i. i mod c) cols n items) (n + length items)"
proof (induction items arbitrary: cols n index)
  case Nil
  then show ?case by simp
next
  case (Cons x xs)
  have "balanced c (cols[n mod c := cols ! (n mod c) @ [x]]) (Suc n)"
    using Cons.prems by (rule balanced_step)
  from Cons.IH [OF this Cons.prems(2)] balanced_least [OF Cons.prems]
  show ?case by simp
qed

lemma balanced_empty: "balanced c (replicate c []) 0"
  by (simp add: balanced_def)

lemma createLayout_step:
  assumes "columnCount this = Num (int c)" "0 < c" "distinct items" "k < length items"
  shows "\<exists>cols. 
     createLayout h (this\<lparr>originalItems := take k items\<rparr>) =
       Inr (this\<lparr>originalItems := take k items, columns := cols\<rparr>)
     \<and> length cols = c
     \<and> createLayout h (this\<lparr>originalItems := take (Suc k) items\<rparr>) =
       Inr (this\<lparr>originalItems := take (Suc k) items,
                 columns := cols[pickColumn h c (masonryOptions this) cols k :=
                   cols ! pickColumn h c (masonryOptions this) cols k @ [items ! k]]\<rparr>)"
proof -
  let ?pick = "pickColumn h c (masonryOptions this)"
  let ?s = "placeAll ?pick (replicate c []) 0 (take k items)"
  have a: "createLayout h (this\<lparr>originalItems := take k items\<rparr>) =
       Inr (this\<lparr>originalItems := take k items, columns := ?s\<rparr>)"
    using createLayout_placeAll [of "this\<lparr>originalItems := take k items\<rparr>" c h] assms
    by simp
  have "take (Suc k) items = take k items @ [items ! k]"
    using assms(4) by (rule take_Suc_conv_app_nth)
  moreover have "length (take k items) = k" using assms(4) by simp
  ultimately have "placeAll ?pick (replicate c []) 0 (take (Suc k) items) =
      ?s[?pick ?s k := ?s ! ?pick ?s k @ [items ! k]]"
    by (simp add: placeAll_snoc Let_def)
  then have b: "createLayout h (this\<lparr>originalItems := take (Suc k) items\<rparr>) =
       Inr (this\<lparr>originalItems := take (Suc k) items,
                 columns := ?s[?pick ?s k := ?s ! ?pick ?s k @ [items ! k]]\<rparr>)"
    using createLayout_placeAll [of "this\<lparr>originalItems := take (Suc k) items\<rparr>" c h] assms
    by simp
  have "length ?s = c" by simp
  with a b show ?thesis by blast
qed

section \<open>The distribution\<close>

text \<open>
  The items of a layout are the children of its container: distinct nodes. The column
  count is a positive integer \<open>c\<close>.
\<close>

text \<open>
  C2. For every list of items, every column count of at least 1, every setting of the
  options and every column height, \<open>createLayout\<close> returns with \<open>c\<close> columns whose
  concatenation in column order is a permutation of the items; each column is a
  subsequence of the item list, so the original order is kept within a column; and every
  item lies in exactly one column.
\<close>

theorem createLayout_partition:
  assumes "columnCount this = Num (int c)" "0 < c" "distinct (originalItems this)"
  shows "\<exists>cols. createLayout h this = Inr (this\<lparr>columns := cols\<rparr>)
     \<and> length cols = c
     \<and> mset (concat cols) = mset (originalItems this)
     \<and> (\<forall>k<c. subseq (cols ! k) (originalItems this))
     \<and> (\<forall>x \<in> set (originalItems this). \<exists>!k. k < c \<and> x \<in> set (cols ! k))"
proof -
  let ?items = "originalItems this"
  let ?pick = "pickColumn h c (masonryOptions this)"
  let ?cols = "placeAll ?pick (replicate c []) 0 ?items"
  have run: "createLayout h this = Inr (this\<lparr>columns := ?cols\<rparr>)"
    using assms by (rule createLayout_placeAll)
  have len: "length ?cols = c" by simp
  have "\<forall>cs i. length cs = length (replicate c ([]::'a list)) \<longrightarrow>
      ?pick cs i < length (replicate c ([]::'a list))"
    using assms(2) by (simp add: pickColumn_less)
  then have "mset (concat ?cols) = mset (concat (replicate c [])) + mset ?items"
    by (rule mset_placeAll)
  then have perm: "mset (concat ?cols) = mset ?items" by simp
  have sub: "\<forall>k<c. subseq (?cols ! k) ?items"
  proof (intro allI impI)
    fix k assume "k < c"
    then have "k < length (replicate c ([]::'a list))" by simp
    from subseq_placeAll [OF this, of ?pick 0 ?items] \<open>k < c\<close>
    show "subseq (?cols ! k) ?items" by auto
  qed
  have dist: "distinct (concat ?cols)"
    using perm assms(3) by (metis mset_eq_imp_distinct_iff)
  have one: "\<forall>x \<in> set ?items. \<exists>!k. k < c \<and> x \<in> set (?cols ! k)"
  proof
    fix x assume "x \<in> set ?items"
    then have "x \<in> set (concat ?cols)" using perm by (metis mset_eq_setD)
    then obtain ys where "ys \<in> set ?cols" "x \<in> set ys" by auto
    then obtain k where k: "k < c" "x \<in> set (?cols ! k)"
      using len by (metis in_set_conv_nth)
    show "\<exists>!k. k < c \<and> x \<in> set (?cols ! k)"
    proof (rule ex1I [of _ k])
      show "k < c \<and> x \<in> set (?cols ! k)" using k by simp
    next
      fix k' assume "k' < c \<and> x \<in> set (?cols ! k')"
      then show "k' = k"
        using distinct_concat_unique [OF dist, of k' k x] k len by simp
    qed
  qed
  from run len perm sub one show ?thesis by blast
qed

theorem createLayout_partition_witness:
  "columnCount (exampleLayout optionsSortByHeight) = Num (int 2) \<and> 0 < (2::nat)
   \<and> distinct (originalItems (exampleLayout optionsSortByHeight))
   \<and> (\<exists>cols. createLayout exampleHeight (exampleLayout optionsSortByHeight) =
               Inr ((exampleLayout optionsSortByHeight)\<lparr>columns := cols\<rparr>)
     \<and> length cols = 2
     \<and> mset (concat cols) = mset (originalItems (exampleLayout optionsSortByHeight))
     \<and> (\<forall>k<2. subseq (cols ! k) (originalItems (exampleLayout optionsSortByHeight)))
     \<and> (\<forall>x \<in> set (originalItems (exampleLayout optionsSortByHeight)).
           \<exists>!k. k < 2 \<and> x \<in> set (cols ! k)))"
proof -
  have h: "columnCount (exampleLayout optionsSortByHeight) = Num (int 2)" "0 < (2::nat)"
    "distinct (originalItems (exampleLayout optionsSortByHeight))"
    by (simp_all add: exampleLayout_def)
  from createLayout_partition [OF h, of exampleHeight] h show ?thesis by blast
qed

lemma indexOf_nth: "distinct xs \<Longrightarrow> i < length xs \<Longrightarrow> indexOf xs (xs ! i) = i"
proof (induction xs arbitrary: i)
  case Nil
  then show ?case by simp
next
  case (Cons y ys)
  then show ?case by (cases i) auto
qed

lemma map_indexOf: "distinct xs \<Longrightarrow> map (indexOf xs) xs = [0..<length xs]"
  by (rule nth_equalityI) (simp_all add: indexOf_nth)

lemma indexOf_inj: "distinct xs \<Longrightarrow> inj_on (indexOf xs) (set xs)"
  by (metis inj_onI in_set_conv_nth indexOf_nth)

lemma filter_single:
  "distinct ys \<Longrightarrow> k \<in> set ys \<Longrightarrow> \<forall>x \<in> set ys. P x \<longleftrightarrow> x = k \<Longrightarrow> filter P ys = [k]"
proof (induction ys)
  case Nil
  then show ?case by simp
next
  case (Cons y ys)
  show ?case
  proof (cases "y = k")
    case True
    then have "\<forall>x \<in> set ys. \<not> P x" using Cons.prems by auto
    then have "filter P ys = []" by (simp add: filter_empty_conv)
    with True Cons.prems show ?thesis by simp
  next
    case False
    with Cons show ?thesis by auto
  qed
qed

lemma sort_key_indexOf:
  assumes "distinct xs" "mset ys = mset xs"
  shows "sort_key (indexOf xs) ys = xs"
proof (rule properties_for_sort_key)
  show "mset xs = mset ys" using assms(2) by simp
  show "sorted (map (indexOf xs) xs)" using assms(1) by (simp add: map_indexOf)
  fix k assume k: "k \<in> set xs"
  have dys: "distinct ys" using assms by (metis mset_eq_imp_distinct_iff)
  have sys: "set ys = set xs" using assms(2) by (rule mset_eq_setD)
  have inj: "\<forall>x \<in> set xs. indexOf xs k = indexOf xs x \<longleftrightarrow> x = k"
    using indexOf_inj [OF assms(1)] k by (auto dest: inj_onD)
  have "filter (\<lambda>x. indexOf xs k = indexOf xs x) xs = [k]"
    using assms(1) k inj by (rule filter_single)
  moreover have "filter (\<lambda>x. indexOf xs k = indexOf xs x) ys = [k]"
    using dys k inj sys by (intro filter_single) simp_all
  ultimately show "filter (\<lambda>x. indexOf xs k = indexOf xs x) xs =
      filter (\<lambda>x. indexOf xs k = indexOf xs x) ys" by simp
qed

lemma placeAll_sequential_pos:
  assumes "0 < c"
  shows "\<forall>i<length items.
     i div c < length (placeAll (\<lambda>cs i. i mod c) (replicate c []) 0 items ! (i mod c))
     \<and> placeAll (\<lambda>cs i. i mod c) (replicate c []) 0 items ! (i mod c) ! (i div c) = items ! i"
proof (induction items rule: rev_induct)
  case Nil
  show ?case by simp
next
  case (snoc x xs)
  let ?s = "placeAll (\<lambda>cs i. i mod c) (replicate c []) 0 xs"
  let ?n = "length xs"
  let ?j = "?n mod c"
  let ?s' = "?s[?j := ?s ! ?j @ [x]]"
  have eq: "placeAll (\<lambda>cs i. i mod c) (replicate c []) 0 (xs @ [x]) = ?s'"
    by (simp add: placeAll_snoc Let_def)
  have j: "?j < c" using assms by simp
  have "balanced c ?s (0 + ?n)"
    using placeAll_fewest_sequential [OF balanced_empty assms, of 0 xs] by blast
  then have lenj: "length (?s ! ?j) = ?n div c"
    using j by (simp add: balanced_def)
  have len: "length ?s = c" by simp
  show ?case
    unfolding eq
  proof (intro allI impI)
    fix i assume "i < length (xs @ [x])"
    then consider (old) "i < ?n" | (new) "i = ?n" by fastforce
    then show "i div c < length (?s' ! (i mod c)) \<and> ?s' ! (i mod c) ! (i div c) = (xs @ [x]) ! i"
    proof cases
      case old
      with snoc have ih: "i div c < length (?s ! (i mod c))" "?s ! (i mod c) ! (i div c) = xs ! i"
        by simp_all
      have ic: "i mod c < c" using assms by simp
      show ?thesis
      proof (cases "i mod c = ?j")
        case True
        then have "?s' ! (i mod c) = ?s ! (i mod c) @ [x]" using len j by simp
        with ih old show ?thesis by (simp add: nth_append)
      next
        case False
        then have "?s' ! (i mod c) = ?s ! (i mod c)" by simp
        with ih old show ?thesis by (simp add: nth_append)
      qed
    next
      case new
      have upd: "?s' ! ?j = ?s ! ?j @ [x]" using len j by simp
      have "(?s ! ?j @ [x]) ! (?n div c) = x"
        using nth_append_length [of "?s ! ?j" x "[]"] lenj by simp
      with new lenj upd show ?thesis by simp
    qed
  qed
qed

text \<open>
  C3. For every list of items and every column count \<open>c\<close> of at least 1, the sequential
  branch puts the item at original index \<open>i\<close> into column \<open>i mod c\<close>: column \<open>k\<close> holds,
  in their order, exactly the items whose index is \<open>k\<close> modulo \<open>c\<close>. Concatenating the
  columns in column order and sorting by original index gives the item list back.
\<close>

theorem createLayout_sequential:
  assumes "columnCount this = Num (int c)" "0 < c" "distinct (originalItems this)"
    "\<not> sortByHeight (masonryOptions this)" "\<not> horizontalOrder (masonryOptions this)"
  shows "\<exists>cols. createLayout h this = Inr (this\<lparr>columns := cols\<rparr>)
     \<and> length cols = c
     \<and> (\<forall>k<c. cols ! k =
           map ((!) (originalItems this))
             (filter (\<lambda>i. i mod c = k) [0..<length (originalItems this)]))
     \<and> (\<forall>i<length (originalItems this).
           i div c < length (cols ! (i mod c))
           \<and> cols ! (i mod c) ! (i div c) = originalItems this ! i)
     \<and> sort_key (indexOf (originalItems this)) (concat cols) = originalItems this"
proof -
  let ?items = "originalItems this"
  let ?cols = "placeAll (\<lambda>cs i. i mod c) (replicate c []) 0 ?items"
  have "pickColumn h c (masonryOptions this) = (\<lambda>cs i. i mod c)"
    using assms(4,5) by (simp add: pickColumn_def fun_eq_iff)
  then have run: "createLayout h this = Inr (this\<lparr>columns := ?cols\<rparr>)"
    using createLayout_placeAll [OF assms(1-3), of h] by simp
  have len: "length ?cols = c" by simp
  have col: "\<forall>k<c. ?cols ! k = map ((!) ?items) (filter (\<lambda>i. i mod c = k) [0..<length ?items])"
  proof (intro allI impI)
    fix k assume "k < c"
    then show "?cols ! k = map ((!) ?items) (filter (\<lambda>i. i mod c = k) [0..<length ?items])"
      using placeAll_sequential_nth [of k "replicate c []" c 0 ?items] by simp
  qed
  have "\<forall>cs i. length cs = length (replicate c ([]::'a list)) \<longrightarrow>
      i mod c < length (replicate c ([]::'a list))"
    using assms(2) by simp
  then have "mset (concat ?cols) = mset (concat (replicate c [])) + mset ?items"
    by (rule mset_placeAll)
  then have "mset (concat ?cols) = mset ?items" by simp
  with assms(3) have resort: "sort_key (indexOf ?items) (concat ?cols) = ?items"
    by (rule sort_key_indexOf)
  have pos: "\<forall>i<length ?items.
      i div c < length (?cols ! (i mod c)) \<and> ?cols ! (i mod c) ! (i div c) = ?items ! i"
    using assms(2) by (rule placeAll_sequential_pos)
  from run len col pos resort show ?thesis by blast
qed

theorem createLayout_sequential_witness:
  "columnCount (exampleLayout optionsSequential) = Num (int 2) \<and> 0 < (2::nat)
   \<and> distinct (originalItems (exampleLayout optionsSequential))
   \<and> \<not> sortByHeight (masonryOptions (exampleLayout optionsSequential))
   \<and> \<not> horizontalOrder (masonryOptions (exampleLayout optionsSequential))
   \<and> (\<exists>cols. createLayout exampleHeight (exampleLayout optionsSequential) =
               Inr ((exampleLayout optionsSequential)\<lparr>columns := cols\<rparr>)
     \<and> length cols = 2
     \<and> (\<forall>k<2. cols ! k =
           map ((!) (originalItems (exampleLayout optionsSequential)))
             (filter (\<lambda>i. i mod 2 = k)
                [0..<length (originalItems (exampleLayout optionsSequential))]))
     \<and> (\<forall>i<length (originalItems (exampleLayout optionsSequential)).
           i div 2 < length (cols ! (i mod 2))
           \<and> cols ! (i mod 2) ! (i div 2) = originalItems (exampleLayout optionsSequential) ! i)
     \<and> sort_key (indexOf (originalItems (exampleLayout optionsSequential))) (concat cols) =
         originalItems (exampleLayout optionsSequential))"
proof -
  have h: "columnCount (exampleLayout optionsSequential) = Num (int 2)" "0 < (2::nat)"
    "distinct (originalItems (exampleLayout optionsSequential))"
    "\<not> sortByHeight (masonryOptions (exampleLayout optionsSequential))"
    "\<not> horizontalOrder (masonryOptions (exampleLayout optionsSequential))"
    by (simp_all add: exampleLayout_def optionsSequential_def)
  from createLayout_sequential [OF h, of exampleHeight] h show ?thesis by blast
qed

text \<open>
  C10. For every list of items and every column count \<open>c\<close> of at least 1, the
  \<open>horizontalOrder\<close> branch (fewest items first) and the sequential branch leave the
  same columns: the strict comparison keeps the lowest index among the columns with the
  fewest items, which for columns filled round-robin is the next one, so the item at
  original index \<open>i\<close> lands in column \<open>i mod c\<close>.
\<close>

theorem horizontalOrder_is_sequential:
  assumes "columnCount this = Num (int c)" "0 < c" "distinct (originalItems this)"
  shows "\<exists>cols.
       createLayout h (this\<lparr>masonryOptions := optionsHorizontalOrder\<rparr>) =
         Inr (this\<lparr>masonryOptions := optionsHorizontalOrder, columns := cols\<rparr>)
     \<and> createLayout h (this\<lparr>masonryOptions := optionsSequential\<rparr>) =
         Inr (this\<lparr>masonryOptions := optionsSequential, columns := cols\<rparr>)
     \<and> length cols = c
     \<and> (\<forall>k<c. cols ! k =
           map ((!) (originalItems this))
             (filter (\<lambda>i. i mod c = k) [0..<length (originalItems this)]))"
proof -
  let ?items = "originalItems this"
  let ?cols = "placeAll (\<lambda>cs i. i mod c) (replicate c []) 0 ?items"
  have seq: "pickColumn h c optionsSequential = (\<lambda>cs i. i mod c)"
    by (simp add: pickColumn_def optionsSequential_def fun_eq_iff)
  have hor: "pickColumn h c optionsHorizontalOrder =
      (\<lambda>cs i. leastColumn (\<lambda>j. int (length (cs ! j))) (length cs))"
    by (simp add: pickColumn_def optionsHorizontalOrder_def fun_eq_iff)
  have same: "placeAll (\<lambda>cs i. leastColumn (\<lambda>j. int (length (cs ! j))) (length cs))
       (replicate c []) 0 ?items = ?cols"
    using placeAll_fewest_sequential [OF balanced_empty assms(2), of 0 ?items] by blast
  have a: "createLayout h (this\<lparr>masonryOptions := optionsHorizontalOrder\<rparr>) =
         Inr (this\<lparr>masonryOptions := optionsHorizontalOrder, columns := ?cols\<rparr>)"
    using createLayout_placeAll [of "this\<lparr>masonryOptions := optionsHorizontalOrder\<rparr>" c h]
      assms hor same by simp
  have b: "createLayout h (this\<lparr>masonryOptions := optionsSequential\<rparr>) =
         Inr (this\<lparr>masonryOptions := optionsSequential, columns := ?cols\<rparr>)"
    using createLayout_placeAll [of "this\<lparr>masonryOptions := optionsSequential\<rparr>" c h]
      assms seq by simp
  have col: "\<forall>k<c. ?cols ! k = map ((!) ?items) (filter (\<lambda>i. i mod c = k) [0..<length ?items])"
  proof (intro allI impI)
    fix k assume "k < c"
    then show "?cols ! k = map ((!) ?items) (filter (\<lambda>i. i mod c = k) [0..<length ?items])"
      using placeAll_sequential_nth [of k "replicate c []" c 0 ?items] by simp
  qed
  have "length ?cols = c" by simp
  with a b col show ?thesis by blast
qed

theorem horizontalOrder_is_sequential_witness:
  "columnCount (exampleLayout optionsSequential) = Num (int 2) \<and> 0 < (2::nat)
   \<and> distinct (originalItems (exampleLayout optionsSequential))
   \<and> (\<exists>cols.
       createLayout exampleHeight
           ((exampleLayout optionsSequential)\<lparr>masonryOptions := optionsHorizontalOrder\<rparr>) =
         Inr ((exampleLayout optionsSequential)
               \<lparr>masonryOptions := optionsHorizontalOrder, columns := cols\<rparr>)
     \<and> createLayout exampleHeight
           ((exampleLayout optionsSequential)\<lparr>masonryOptions := optionsSequential\<rparr>) =
         Inr ((exampleLayout optionsSequential)
               \<lparr>masonryOptions := optionsSequential, columns := cols\<rparr>)
     \<and> length cols = 2
     \<and> (\<forall>k<2. cols ! k =
           map ((!) (originalItems (exampleLayout optionsSequential)))
             (filter (\<lambda>i. i mod 2 = k)
                [0..<length (originalItems (exampleLayout optionsSequential))])))"
proof -
  have h: "columnCount (exampleLayout optionsSequential) = Num (int 2)" "0 < (2::nat)"
    "distinct (originalItems (exampleLayout optionsSequential))"
    by (simp_all add: exampleLayout_def)
  from horizontalOrder_is_sequential [OF h, of exampleHeight] h show ?thesis by blast
qed

text \<open>
  C5. For every list of items, every column count \<open>c\<close> of at least 1 and every column
  height, the \<open>sortByHeight\<close> branch takes the items in their original order: the layout
  of the first \<open>k + 1\<close> items is the layout of the first \<open>k\<close> items with item \<open>k\<close>
  appended to the column \<open>j\<close> whose height, measured on that layout, is smallest, and no
  column of lower index is as short.
\<close>

theorem sortByHeight_places_on_shortest:
  assumes "columnCount this = Num (int c)" "0 < c" "distinct items" "k < length items"
    "sortByHeight (masonryOptions this)"
  shows "\<exists>cols j.
       createLayout h (this\<lparr>originalItems := take k items\<rparr>) =
         Inr (this\<lparr>originalItems := take k items, columns := cols\<rparr>)
     \<and> length cols = c \<and> j < c
     \<and> (\<forall>i<c. h cols j \<le> h cols i)
     \<and> (\<forall>i<j. h cols j < h cols i)
     \<and> createLayout h (this\<lparr>originalItems := take (Suc k) items\<rparr>) =
         Inr (this\<lparr>originalItems := take (Suc k) items,
                   columns := cols[j := cols ! j @ [items ! k]]\<rparr>)"
proof -
  from createLayout_step [OF assms(1-4), of h]
  obtain cols where cols:
    "createLayout h (this\<lparr>originalItems := take k items\<rparr>) =
       Inr (this\<lparr>originalItems := take k items, columns := cols\<rparr>)"
    "length cols = c"
    "createLayout h (this\<lparr>originalItems := take (Suc k) items\<rparr>) =
       Inr (this\<lparr>originalItems := take (Suc k) items,
                 columns := cols[pickColumn h c (masonryOptions this) cols k :=
                   cols ! pickColumn h c (masonryOptions this) cols k @ [items ! k]]\<rparr>)"
    by blast
  let ?j = "leastColumn (h cols) c"
  have pick: "pickColumn h c (masonryOptions this) cols k = ?j"
    using assms(5) cols(2) by (simp add: pickColumn_def)
  have "?j < c" using assms(2) by (rule leastColumn_less)
  moreover have "\<forall>i<c. h cols ?j \<le> h cols i" by (simp add: leastColumn_le)
  moreover have "\<forall>i<?j. h cols ?j < h cols i" by (simp add: leastColumn_first)
  ultimately show ?thesis using cols pick by (intro exI [of _ cols] exI [of _ ?j]) simp
qed

theorem sortByHeight_places_on_shortest_witness:
  "columnCount (exampleLayout optionsSortByHeight) = Num (int 2) \<and> 0 < (2::nat)
   \<and> distinct [30, 10, 20, 50, 40 :: int] \<and> 2 < length [30, 10, 20, 50, 40 :: int]
   \<and> sortByHeight (masonryOptions (exampleLayout optionsSortByHeight))
   \<and> (\<exists>cols j.
       createLayout exampleHeight
           ((exampleLayout optionsSortByHeight)\<lparr>originalItems := take 2 [30, 10, 20, 50, 40]\<rparr>) =
         Inr ((exampleLayout optionsSortByHeight)
               \<lparr>originalItems := take 2 [30, 10, 20, 50, 40], columns := cols\<rparr>)
     \<and> length cols = 2 \<and> j < 2
     \<and> (\<forall>i<2. exampleHeight cols j \<le> exampleHeight cols i)
     \<and> (\<forall>i<j. exampleHeight cols j < exampleHeight cols i)
     \<and> createLayout exampleHeight
           ((exampleLayout optionsSortByHeight)
              \<lparr>originalItems := take (Suc 2) [30, 10, 20, 50, 40]\<rparr>) =
         Inr ((exampleLayout optionsSortByHeight)
               \<lparr>originalItems := take (Suc 2) [30, 10, 20, 50, 40],
                columns := cols[j := cols ! j @ [[30, 10, 20, 50, 40] ! 2]]\<rparr>))"
proof -
  have h: "columnCount (exampleLayout optionsSortByHeight) = Num (int 2)" "0 < (2::nat)"
    "distinct [30, 10, 20, 50, 40 :: int]" "2 < length [30, 10, 20, 50, 40 :: int]"
    "sortByHeight (masonryOptions (exampleLayout optionsSortByHeight))"
    by (simp_all add: exampleLayout_def optionsSortByHeight_def)
  from sortByHeight_places_on_shortest [OF h, of exampleHeight] h show ?thesis by blast
qed

lemma balanced_Max_Min:
  assumes "balanced c cols n" "0 < c"
  shows "Max (length ` set cols) \<le> Min (length ` set cols) + 1"
proof -
  have len: "length cols = c" using assms(1) by (simp add: balanced_def)
  have ne: "length ` set cols \<noteq> {}" using len assms(2) by auto
  have fin: "finite (length ` set cols)" by simp
  have bounds: "\<forall>l \<in> length ` set cols. n div c \<le> l \<and> l \<le> n div c + 1"
  proof
    fix l assume "l \<in> length ` set cols"
    then obtain j where "j < c" "l = length (cols ! j)"
      using len by (auto simp: in_set_conv_nth)
    then show "n div c \<le> l \<and> l \<le> n div c + 1"
      using assms(1) by (simp add: balanced_def)
  qed
  have "Max (length ` set cols) \<le> n div c + 1"
    using fin ne bounds by simp
  moreover have "n div c \<le> Min (length ` set cols)"
    using fin ne bounds by simp
  ultimately show ?thesis by linarith
qed

text \<open>
  C4. For every list of items and every column count \<open>c\<close> of at least 1, the
  \<open>horizontalOrder\<close> branch takes the items in their original order: the layout of the
  first \<open>k + 1\<close> items is the layout of the first \<open>k\<close> items with item \<open>k\<close> appended to
  the column \<open>j\<close> that holds the fewest items there, and no column of lower index holds
  as few. In the layout of all the items the largest and the smallest number of items
  in a column differ by at most 1.
\<close>

theorem horizontalOrder_places_on_fewest:
  assumes "columnCount this = Num (int c)" "0 < c" "distinct items"
    "\<not> sortByHeight (masonryOptions this)" "horizontalOrder (masonryOptions this)"
  shows "(\<forall>k<length items. \<exists>cols j.
       createLayout h (this\<lparr>originalItems := take k items\<rparr>) =
         Inr (this\<lparr>originalItems := take k items, columns := cols\<rparr>)
     \<and> length cols = c \<and> j < c
     \<and> (\<forall>i<c. length (cols ! j) \<le> length (cols ! i))
     \<and> (\<forall>i<j. length (cols ! j) < length (cols ! i))
     \<and> createLayout h (this\<lparr>originalItems := take (Suc k) items\<rparr>) =
         Inr (this\<lparr>originalItems := take (Suc k) items,
                   columns := cols[j := cols ! j @ [items ! k]]\<rparr>))
   \<and> (\<exists>cols. createLayout h (this\<lparr>originalItems := items\<rparr>) =
         Inr (this\<lparr>originalItems := items, columns := cols\<rparr>)
     \<and> length cols = c
     \<and> Max (length ` set cols) \<le> Min (length ` set cols) + 1)"
proof
  show "\<forall>k<length items. \<exists>cols j.
       createLayout h (this\<lparr>originalItems := take k items\<rparr>) =
         Inr (this\<lparr>originalItems := take k items, columns := cols\<rparr>)
     \<and> length cols = c \<and> j < c
     \<and> (\<forall>i<c. length (cols ! j) \<le> length (cols ! i))
     \<and> (\<forall>i<j. length (cols ! j) < length (cols ! i))
     \<and> createLayout h (this\<lparr>originalItems := take (Suc k) items\<rparr>) =
         Inr (this\<lparr>originalItems := take (Suc k) items,
                   columns := cols[j := cols ! j @ [items ! k]]\<rparr>)"
  proof (intro allI impI)
    fix k assume k: "k < length items"
    from createLayout_step [OF assms(1-3) k, of h]
    obtain cols where cols:
      "createLayout h (this\<lparr>originalItems := take k items\<rparr>) =
         Inr (this\<lparr>originalItems := take k items, columns := cols\<rparr>)"
      "length cols = c"
      "createLayout h (this\<lparr>originalItems := take (Suc k) items\<rparr>) =
         Inr (this\<lparr>originalItems := take (Suc k) items,
                   columns := cols[pickColumn h c (masonryOptions this) cols k :=
                     cols ! pickColumn h c (masonryOptions this) cols k @ [items ! k]]\<rparr>)"
      by blast
    let ?m = "\<lambda>j. int (length (cols ! j))"
    let ?j = "leastColumn ?m c"
    have pick: "pickColumn h c (masonryOptions this) cols k = ?j"
      using assms(4,5) cols(2) by (simp add: pickColumn_def)
    have "?j < c" using assms(2) by (rule leastColumn_less)
    moreover have "\<forall>i<c. length (cols ! ?j) \<le> length (cols ! i)"
      using leastColumn_le [of _ c ?m] by simp
    moreover have "\<forall>i<?j. length (cols ! ?j) < length (cols ! i)"
      using leastColumn_first [of _ ?m c] by simp
    ultimately show "\<exists>cols j.
       createLayout h (this\<lparr>originalItems := take k items\<rparr>) =
         Inr (this\<lparr>originalItems := take k items, columns := cols\<rparr>)
     \<and> length cols = c \<and> j < c
     \<and> (\<forall>i<c. length (cols ! j) \<le> length (cols ! i))
     \<and> (\<forall>i<j. length (cols ! j) < length (cols ! i))
     \<and> createLayout h (this\<lparr>originalItems := take (Suc k) items\<rparr>) =
         Inr (this\<lparr>originalItems := take (Suc k) items,
                   columns := cols[j := cols ! j @ [items ! k]]\<rparr>)"
      using cols pick by (intro exI [of _ cols] exI [of _ ?j]) simp
  qed
next
  let ?cols = "placeAll (\<lambda>cs i. i mod c) (replicate c []) 0 items"
  have hor: "pickColumn h c (masonryOptions this) =
      (\<lambda>cs i. leastColumn (\<lambda>j. int (length (cs ! j))) (length cs))"
    using assms(4,5) by (simp add: pickColumn_def fun_eq_iff)
  have both: "placeAll (\<lambda>cs i. leastColumn (\<lambda>j. int (length (cs ! j))) (length cs))
       (replicate c []) 0 items = ?cols" "balanced c ?cols (0 + length items)"
    using placeAll_fewest_sequential [OF balanced_empty assms(2), of 0 items] by blast+
  have run: "createLayout h (this\<lparr>originalItems := items\<rparr>) =
         Inr (this\<lparr>originalItems := items, columns := ?cols\<rparr>)"
    using createLayout_placeAll [of "this\<lparr>originalItems := items\<rparr>" c h] assms(1-3) hor both(1)
    by simp
  have "Max (length ` set ?cols) \<le> Min (length ` set ?cols) + 1"
    using both(2) assms(2) by (rule balanced_Max_Min)
  moreover have "length ?cols = c" by simp
  ultimately show "\<exists>cols. createLayout h (this\<lparr>originalItems := items\<rparr>) =
         Inr (this\<lparr>originalItems := items, columns := cols\<rparr>)
     \<and> length cols = c
     \<and> Max (length ` set cols) \<le> Min (length ` set cols) + 1"
    using run by blast
qed

theorem horizontalOrder_places_on_fewest_witness:
  "columnCount (exampleLayout optionsHorizontalOrder) = Num (int 2) \<and> 0 < (2::nat)
   \<and> distinct [30, 10, 20, 50, 40 :: int]
   \<and> \<not> sortByHeight (masonryOptions (exampleLayout optionsHorizontalOrder))
   \<and> horizontalOrder (masonryOptions (exampleLayout optionsHorizontalOrder))
   \<and> 2 < length [30, 10, 20, 50, 40 :: int]
   \<and> (\<exists>cols j.
       createLayout exampleHeight
           ((exampleLayout optionsHorizontalOrder)\<lparr>originalItems := take 2 [30, 10, 20, 50, 40]\<rparr>) =
         Inr ((exampleLayout optionsHorizontalOrder)
               \<lparr>originalItems := take 2 [30, 10, 20, 50, 40], columns := cols\<rparr>)
     \<and> length cols = 2 \<and> j < 2
     \<and> (\<forall>i<2. length (cols ! j) \<le> length (cols ! i))
     \<and> (\<forall>i<j. length (cols ! j) < length (cols ! i))
     \<and> createLayout exampleHeight
           ((exampleLayout optionsHorizontalOrder)
              \<lparr>originalItems := take (Suc 2) [30, 10, 20, 50, 40]\<rparr>) =
         Inr ((exampleLayout optionsHorizontalOrder)
               \<lparr>originalItems := take (Suc 2) [30, 10, 20, 50, 40],
                columns := cols[j := cols ! j @ [[30, 10, 20, 50, 40] ! 2]]\<rparr>))
   \<and> (\<exists>cols. createLayout exampleHeight
           ((exampleLayout optionsHorizontalOrder)\<lparr>originalItems := [30, 10, 20, 50, 40]\<rparr>) =
         Inr ((exampleLayout optionsHorizontalOrder)
               \<lparr>originalItems := [30, 10, 20, 50, 40], columns := cols\<rparr>)
     \<and> length cols = 2
     \<and> Max (length ` set cols) \<le> Min (length ` set cols) + 1)"
proof -
  have h: "columnCount (exampleLayout optionsHorizontalOrder) = Num (int 2)" "0 < (2::nat)"
    "distinct [30, 10, 20, 50, 40 :: int]"
    "\<not> sortByHeight (masonryOptions (exampleLayout optionsHorizontalOrder))"
    "horizontalOrder (masonryOptions (exampleLayout optionsHorizontalOrder))"
    by (simp_all add: exampleLayout_def optionsHorizontalOrder_def)
  have k: "2 < length [30, 10, 20, 50, 40 :: int]" by simp
  from horizontalOrder_places_on_fewest [OF h, of exampleHeight] h k show ?thesis by blast
qed

section \<open>Construction and invalid column counts\<close>

text \<open>
  C7. When \<open>JSON.parse\<close> throws on the breakpoint attribute, the constructor writes a
  line to \<open>console.error\<close> and takes the table with the single entry \<open>default: 2\<close>, which
  resolves to 2 columns. The attribute \<open>null\<close> parses, to a value that is no table: the
  constructor keeps it, writes nothing, and leaves with the \<open>TypeError\<close> of
  \<open>Object.keys(null)\<close>.
\<close>

theorem constructor_malformed:
  "constructor children opts attr (Inl e) w =
     Inr \<lparr>originalItems = children, defaultCols = 2,
          breakpointCols = Object [(Default, Num 2)], columnCount = Num 2,
          masonryOptions = opts, columns = [],
          console = [''Invalid `breakpointCols` format: '' @ attr]\<rparr>
   \<and> constructor children opts ''null'' (Inr JNull) w = Inl TypeError"
  by (simp add: constructor_def calculateColumnCount_def get_def)

text \<open>
  C8, as the claim states it, fails: the table whose only entry is \<open>default: 0\<close> is
  accepted, no error is raised or reported, and the layout starts with 0 columns.
\<close>

theorem constructor_accepts_zero_default:
  "constructor [30, 10, 20 :: int] optionsSequential ''{\"default\": 0}''
      (Inr (JObject [(Default, Num 0)])) 1024 =
     Inr \<lparr>originalItems = [30, 10, 20], defaultCols = 2,
          breakpointCols = Object [(Default, Num 0)], columnCount = Num 0,
          masonryOptions = optionsSequential, columns = [], console = []\<rparr>"
  by (simp add: constructor_def calculateColumnCount_def get_def)

text \<open>
  C8, amended. The constructor does not look at the entries of the table: a table whose
  default is a non-positive number is stored as it is, at every width; the constructor
  returns, with no exception and nothing written to \<open>console.error\<close>, and with the
  column count that the resolver gives. That count is the non-positive default when the
  width exceeds every breakpoint of the table.
\<close>

theorem constructor_keeps_nonpositive_default:
  assumes "get T Default = Num d" "d \<le> 0"
  shows "\<exists>n. calculateColumnCount w (Object T) = Inr n
     \<and> constructor children opts attr (Inr (JObject T)) w =
         Inr \<lparr>originalItems = children, defaultCols = 2,
              breakpointCols = Object T, columnCount = n,
              masonryOptions = opts, columns = [], console = []\<rparr>
     \<and> ((\<forall>t \<in> set (thresholds T). toNumber t < Finite w) \<longrightarrow> n = Num d)"
proof -
  let ?bs = "sort (map toNumber (thresholds T))"
  let ?n = "matchBreakpoint w T (get T Default) ?bs"
  have run: "calculateColumnCount w (Object T) = Inr ?n"
    by (simp add: calculateColumnCount_def)
  then have made: "constructor children opts attr (Inr (JObject T)) w =
         Inr \<lparr>originalItems = children, defaultCols = 2,
              breakpointCols = Object T, columnCount = ?n,
              masonryOptions = opts, columns = [], console = []\<rparr>"
    by (simp add: constructor_def)
  have "(\<forall>t \<in> set (thresholds T). toNumber t < Finite w) \<longrightarrow> ?n = Num d"
  proof
    assume "\<forall>t \<in> set (thresholds T). toNumber t < Finite w"
    then have "\<forall>b \<in> set ?bs. b < Finite w" by simp
    then have "matchBreakpoint w T (get T Default) ?bs = get T Default"
      by (rule matchBreakpoint_none)
    then show "?n = Num d" using assms(1) by simp
  qed
  with run made show ?thesis by blast
qed

theorem constructor_keeps_nonpositive_default_witness:
  "get [(Threshold 600, Num 1), (Default, Num (- 1))] Default = Num (- 1) \<and> (- 1 :: int) \<le> 0
   \<and> thresholds [(Threshold 600, Num 1), (Default, Num (- 1))] = [600]
   \<and> toNumber 600 < Finite 1024
   \<and> calculateColumnCount 1024 (Object [(Threshold 600, Num 1), (Default, Num (- 1))]) =
       Inr (Num (- 1))
   \<and> constructor [30, 10, 20 :: int] optionsSequential ''x''
        (Inr (JObject [(Threshold 600, Num 1), (Default, Num (- 1))])) 1024 =
     Inr \<lparr>originalItems = [30, 10, 20], defaultCols = 2,
          breakpointCols = Object [(Threshold 600, Num 1), (Default, Num (- 1))],
          columnCount = Num (- 1),
          masonryOptions = optionsSequential, columns = [], console = []\<rparr>"
proof -
  let ?T = "[(Threshold 600, Num 1), (Default, Num (- 1))]"
  have h: "get ?T Default = Num (- 1)" "(- 1 :: int) \<le> 0"
    by (simp_all add: get_def)
  have "toNumber 600 = Finite 600" by (rule toNumber_safe) simp
  then have less: "toNumber 600 < Finite 1024"
    by (simp add: Finite_less)
  then have all: "\<forall>t \<in> set (thresholds ?T). toNumber t < Finite 1024" by simp
  from constructor_keeps_nonpositive_default
    [OF h, of 1024 "[30, 10, 20]" optionsSequential "''x''"] all
  obtain n where "calculateColumnCount 1024 (Object ?T) = Inr n"
    "constructor [30, 10, 20 :: int] optionsSequential ''x'' (Inr (JObject ?T)) 1024 =
       Inr \<lparr>originalItems = [30, 10, 20], defaultCols = 2,
            breakpointCols = Object ?T, columnCount = n,
            masonryOptions = optionsSequential, columns = [], console = []\<rparr>"
    "n = Num (- 1)"
    by blast
  with h less show ?thesis by simp
qed

text \<open>
  C9, as the claim states it, fails: with the column count 0 and no items,
  \<open>createLayout\<close> returns, with no columns and no error. With items, the remainder by
  zero of the sequential branch is evaluated, to \<open>NaN\<close>, and the layout ends only when
  no column is found at that index.
\<close>

theorem createLayout_zero_columns_no_error:
  "createLayout exampleHeight
     ((exampleLayout optionsSequential)\<lparr>originalItems := [], columnCount := Num 0\<rparr>) =
   Inr ((exampleLayout optionsSequential)
         \<lparr>originalItems := [], columnCount := Num 0, columns := []\<rparr>)
   \<and> remainder 0 (Num 0) = None
   \<and> createLayout exampleHeight ((exampleLayout optionsSequential)\<lparr>columnCount := Num 0\<rparr>) =
       Inl TypeError"
  by (simp add: createLayout_def layoutColumns_def exampleLayout_def optionsSequential_def)

text \<open>
  C9, amended. \<open>createLayout\<close> does not check the column count. With the column count
  0 it makes no column; without items it returns; with items, whatever the options, it
  leaves at the first item with the \<open>TypeError\<close> of \<open>appendChild\<close> on \<open>undefined\<close>.
\<close>

theorem createLayout_zero_columns:
  assumes "columnCount this = Num 0"
  shows "createLayout h this =
     (if originalItems this = [] then Inr (this\<lparr>columns := []\<rparr>) else Inl TypeError)"
proof -
  have cols: "layoutColumns (Num 0) (columns this) = []"
    by (simp add: layoutColumns_def)
  show ?thesis
  proof (cases "originalItems this")
    case Nil
    then show ?thesis using assms cols by (simp add: createLayout_def)
  next
    case (Cons x xs)
    then show ?thesis
      using assms cols by (simp add: createLayout_def reduceColumns_def)
  qed
qed

theorem createLayout_zero_columns_witness:
  "columnCount ((exampleLayout optionsHorizontalOrder)\<lparr>columnCount := Num 0\<rparr>) = Num 0
   \<and> createLayout exampleHeight ((exampleLayout optionsHorizontalOrder)\<lparr>columnCount := Num 0\<rparr>) =
       Inl TypeError"
  using createLayout_zero_columns
    [of "(exampleLayout optionsHorizontalOrder)\<lparr>columnCount := Num 0\<rparr>" exampleHeight]
  by (simp add: exampleLayout_def)

section \<open>The rate limiter on a burst\<close>

text \<open>
  C6. On a burst of ten signals within one window of 200 ms, the first signal is
  handled at once. Each later signal replaces the pending timer; when the last timer
  fires, its callback compares the time of the call that set it, not the time of firing,
  with \<open>lastRan\<close>, finds less than the limit, and does not apply the handler. The
  handler has run once, for the first signal, and no timer is pending.
\<close>

theorem throttle_burst:
  "applied (throttle 200 burst) = [1200]
   \<and> lastFunc (throttle 200 burst) = None
   \<and> lastRan (throttle 200 burst) = Some 1000"
  by (simp add: throttle_def burst_def notLastRan_def)

end
